theory Spec2Isabelle
  imports Main "HOL-Library.Word" "HOL-Library.Sublist"
begin

text \<open>
  The repository is one React component, \<^verbatim>\<open>components/chat-interface.tsx\<close>.  This
  theory embeds its logic: \<^verbatim>\<open>sanitizeInput\<close> (the Redactor, lines 41 to 47),
  \<^verbatim>\<open>getMockResponse\<close> (the ResponseResolver, lines 243 to 270), and the handlers
  \<^verbatim>\<open>handleSend\<close>, \<^verbatim>\<open>speak\<close> and \<^verbatim>\<open>clearHistory\<close> with the state they act on
  (lines 21 to 24, 49 to 84 and 117 to 120).  What the code takes from the JavaScript
  runtime (regular expressions and \<^verbatim>\<open>replace\<close>, \<^verbatim>\<open>toLowerCase\<close>, \<^verbatim>\<open>includes\<close>,
  \<^verbatim>\<open>trim\<close>, property lookup, \<^verbatim>\<open>Date.now\<close>, \<^verbatim>\<open>setTimeout\<close> and
  \<^verbatim>\<open>speechSynthesis\<close>) is modelled beside it.
\<close>

section \<open>JavaScript strings\<close>

text \<open>
  A JavaScript string is a sequence of 16-bit code units.  Every string operation of
  \<^verbatim>\<open>chat-interface.tsx\<close> (regular expressions without the \<^verbatim>\<open>u\<close> flag,
  \<^verbatim>\<open>includes\<close>, \<^verbatim>\<open>trim\<close>, \<^verbatim>\<open>toLowerCase\<close>) works on code units.
  \<open>ascii\<close> writes a literal of the Basic Latin block.
\<close>

type_synonym unit16 = "16 word"
type_synonym jsstring = "unit16 list"

definition ascii :: "string \<Rightarrow> jsstring" where
  "ascii s = map of_char s"

subsection \<open>Character classes of the regular expressions\<close>

text \<open>
  A class \<^verbatim>\<open>[a-zA-Z0-9._%+-]\<close> is the list of its ranges, a single character being
  the range from itself to itself.
\<close>

type_synonym cclass = "(unit16 \<times> unit16) list"

fun inClass :: "cclass \<Rightarrow> unit16 \<Rightarrow> bool" where
  "inClass [] u = False"
| "inClass ((lo, hi) # rs) u = ((lo \<le> u \<and> u \<le> hi) \<or> inClass rs u)"

text \<open>\<^verbatim>\<open>[a-zA-Z0-9._%+-]\<close>\<close>
definition localClass :: cclass where
  "localClass = [(0x61, 0x7A), (0x41, 0x5A), (0x30, 0x39),
                 (0x2E, 0x2E), (0x5F, 0x5F), (0x25, 0x25), (0x2B, 0x2B), (0x2D, 0x2D)]"

text \<open>\<^verbatim>\<open>[a-zA-Z0-9.-]\<close>\<close>
definition domainClass :: cclass where
  "domainClass = [(0x61, 0x7A), (0x41, 0x5A), (0x30, 0x39), (0x2E, 0x2E), (0x2D, 0x2D)]"

text \<open>\<^verbatim>\<open>[a-zA-Z]\<close>\<close>
definition alphaClass :: cclass where
  "alphaClass = [(0x61, 0x7A), (0x41, 0x5A)]"

text \<open>\<^verbatim>\<open>\d\<close>, which is \<^verbatim>\<open>[0-9]\<close>\<close>
definition digitClass :: cclass where
  "digitClass = [(0x30, 0x39)]"

text \<open>\<^verbatim>\<open>\w\<close>, which is \<^verbatim>\<open>[a-zA-Z0-9_]\<close>; it decides the word boundary \<^verbatim>\<open>\b\<close>\<close>
definition wordClass :: cclass where
  "wordClass = [(0x61, 0x7A), (0x41, 0x5A), (0x30, 0x39), (0x5F, 0x5F)]"

section \<open>The regular expression matcher\<close>

text \<open>
  The fragment of ECMAScript regular expressions the component uses: a literal
  character, a character class under a greedy quantifier \<^verbatim>\<open>{min,max}\<close>
  (\<^verbatim>\<open>+\<close> is \<^verbatim>\<open>{1,}\<close>), the assertion \<^verbatim>\<open>\b\<close>, and concatenation.
\<close>

datatype regex =
    Chr unit16
  | Rep cclass nat "nat option"
  | WordB
  | Seq regex regex

text \<open>
  The matcher works at a position of the input: \<open>prev\<close> is the code unit before the
  position (\<open>None\<close> at the start of the input) and \<open>s\<close> the input from the position
  on.  \<open>ends r prev s\<close> lists how many code units a match of \<open>r\<close> can consume, in the
  order in which the backtracking matcher tries them: a greedy quantifier takes as
  many units as it can and gives them back one at a time.
\<close>

fun isWordChar :: "unit16 option \<Rightarrow> bool" where
  "isWordChar None = False"
| "isWordChar (Some u) = inClass wordClass u"

fun first :: "jsstring \<Rightarrow> unit16 option" where
  "first [] = None"
| "first (u # us) = Some u"

definition prevAfter :: "unit16 option \<Rightarrow> jsstring \<Rightarrow> nat \<Rightarrow> unit16 option" where
  "prevAfter prev s n = (if n = 0 then prev else first (drop (n - 1) s))"

fun ends :: "regex \<Rightarrow> unit16 option \<Rightarrow> jsstring \<Rightarrow> nat list" where
  "ends (Chr c) prev s = (if first s = Some c then [1] else [])"
| "ends (Rep cls mn mx) prev s =
     (let k = length (takeWhile (inClass cls) s);
          k' = (case mx of None \<Rightarrow> k | Some m \<Rightarrow> min k m)
      in rev [mn ..< Suc k'])"
| "ends WordB prev s = (if isWordChar prev \<noteq> isWordChar (first s) then [0] else [])"
| "ends (Seq r1 r2) prev s =
     concat (map (\<lambda>n. map ((+) n) (ends r2 (prevAfter prev s n) (drop n s))) (ends r1 prev s))"

text \<open>The match at a position is the first one the matcher finds.\<close>

definition exec :: "regex \<Rightarrow> unit16 option \<Rightarrow> jsstring \<Rightarrow> nat option" where
  "exec r prev s = (case ends r prev s of [] \<Rightarrow> None | n # _ \<Rightarrow> Some n)"

text \<open>
  \<^verbatim>\<open>text.replace(/r/g, repl)\<close> for a replacement without \<^verbatim>\<open>$\<close>: from the current
  position the input is searched for the leftmost match, the units before it are
  kept, the match is replaced, and the search goes on behind the match (one unit
  further after an empty match, which keeps that unit).
\<close>

fun replaceAll :: "regex \<Rightarrow> jsstring \<Rightarrow> unit16 option \<Rightarrow> jsstring \<Rightarrow> jsstring" where
  "replaceAll r repl prev [] = (case exec r prev [] of None \<Rightarrow> [] | Some n \<Rightarrow> repl)"
| "replaceAll r repl prev (c # cs) =
     (case exec r prev (c # cs) of
        None \<Rightarrow> c # replaceAll r repl (Some c) cs
      | Some n \<Rightarrow>
          if n = 0 then repl @ c # replaceAll r repl (Some c) cs
          else repl @ replaceAll r repl (prevAfter prev (c # cs) n) (drop n (c # cs)))"

section \<open>The Redactor\<close>

text \<open>\<^verbatim>\<open>/[a-zA-Z0-9._%+-]+@[a-zA-Z0-9.-]+\.[a-zA-Z]{2,}/g\<close>\<close>
definition emailRegex :: regex where
  "emailRegex =
     Seq (Rep localClass 1 None)
       (Seq (Chr 0x40)
         (Seq (Rep domainClass 1 None)
           (Seq (Chr 0x2E) (Rep alphaClass 2 None))))"

text \<open>\<^verbatim>\<open>/\b\d{10}\b/g\<close>\<close>
definition phoneRegex :: regex where
  "phoneRegex = Seq WordB (Seq (Rep digitClass 10 (Some 10)) WordB)"

definition EMAIL_REDACTED :: jsstring where
  "EMAIL_REDACTED = ascii ''[EMAIL REDACTED]''"

definition PHONE_REDACTED :: jsstring where
  "PHONE_REDACTED = ascii ''[PHONE REDACTED]''"

definition sanitizeInput :: "jsstring \<Rightarrow> jsstring" where
  "sanitizeInput text =
     (let cleaned = replaceAll emailRegex EMAIL_REDACTED None text;
          cleaned = replaceAll phoneRegex PHONE_REDACTED None cleaned
      in cleaned)"

section \<open>The ResponseResolver\<close>

subsection \<open>The string operations it uses\<close>

text \<open>
  \<^verbatim>\<open>String.prototype.toLowerCase\<close>.  In the Basic Latin block it maps \<^verbatim>\<open>A\<close>-\<^verbatim>\<open>Z\<close>
  to \<^verbatim>\<open>a\<close>-\<^verbatim>\<open>z\<close> and keeps every other unit; the Devanagari block (U+0900 to
  U+097F) has no case.  The rest of Unicode's case table is not part of the
  repository: it is the parameter \<open>unicodeLower\<close>, which gives the lower-cased
  replacement of the unit at an index of the string (it sees the whole string, as
  the final-sigma rule and surrogate pairs need their context).
\<close>

definition lowerAscii :: "unit16 \<Rightarrow> unit16" where
  "lowerAscii u = (if 0x41 \<le> u \<and> u \<le> 0x5A then u + 0x20 else u)"

definition lowerAt :: "(jsstring \<Rightarrow> nat \<Rightarrow> jsstring) \<Rightarrow> jsstring \<Rightarrow> nat \<Rightarrow> jsstring" where
  "lowerAt unicodeLower s i =
     (let u = s ! i in
      if u < 0x80 then [lowerAscii u]
      else if 0x900 \<le> u \<and> u \<le> 0x97F then [u]
      else unicodeLower s i)"

definition toLowerCase :: "(jsstring \<Rightarrow> nat \<Rightarrow> jsstring) \<Rightarrow> jsstring \<Rightarrow> jsstring" where
  "toLowerCase unicodeLower s = concat (map (lowerAt unicodeLower s) [0 ..< length s])"

text \<open>\<^verbatim>\<open>String.prototype.includes\<close>: the search string occurs at some position.\<close>

fun startsWith :: "jsstring \<Rightarrow> jsstring \<Rightarrow> bool" where
  "startsWith s [] = True"
| "startsWith [] (k # ks) = False"
| "startsWith (c # cs) (k # ks) = (c = k \<and> startsWith cs ks)"

fun includesStr :: "jsstring \<Rightarrow> jsstring \<Rightarrow> bool" where
  "includesStr [] k = startsWith [] k"
| "includesStr (c # cs) k = (startsWith (c # cs) k \<or> includesStr cs k)"

subsection \<open>The response table\<close>

record Responses =
  default' :: jsstring
  password :: jsstring
  privacy :: jsstring

definition en_US_default :: jsstring where
  "en_US_default = ascii
     ''I can help you with digital safety. Ask me about passwords, phishing, or privacy settings.''"

definition en_US_password :: jsstring where
  "en_US_password = ascii
     ''To create a strong password, use at least 12 characters, mix uppercase, lowercase, numbers, and symbols. Avoid common words.''"

definition en_US_privacy :: jsstring where
  "en_US_privacy = ascii
     ''Check your privacy settings regularly. Turn off location services for apps that don't need it.''"

definition hi_IN_default :: jsstring where
  "hi_IN_default =
     [0x92E, 0x948, 0x902, 0x20, 0x906, 0x92A, 0x915, 0x940, 0x20, 0x921, 0x93F, 0x91C,
      0x93F, 0x91F, 0x932, 0x20, 0x938, 0x941, 0x930, 0x915, 0x94D, 0x937, 0x93E, 0x20,
      0x92E, 0x947, 0x902, 0x20, 0x92E, 0x926, 0x926, 0x20, 0x915, 0x930, 0x20, 0x938,
      0x915, 0x924, 0x93E, 0x20, 0x939, 0x942, 0x902, 0x964, 0x20, 0x92E, 0x941, 0x91D,
      0x938, 0x947, 0x20, 0x92A, 0x93E, 0x938, 0x935, 0x930, 0x94D, 0x921, 0x2C, 0x20,
      0x92B, 0x93C, 0x93F, 0x936, 0x93F, 0x902, 0x917, 0x20, 0x92F, 0x93E, 0x20, 0x917,
      0x94B, 0x92A, 0x928, 0x940, 0x92F, 0x924, 0x93E, 0x20, 0x938, 0x947, 0x91F, 0x93F,
      0x902, 0x917, 0x94D, 0x938, 0x20, 0x915, 0x947, 0x20, 0x92C, 0x93E, 0x930, 0x947,
      0x20, 0x92E, 0x947, 0x902, 0x20, 0x92A, 0x942, 0x91B, 0x947, 0x902, 0x964]"

definition hi_IN_password :: jsstring where
  "hi_IN_password =
     [0x90F, 0x915, 0x20, 0x92E, 0x91C, 0x92C, 0x942, 0x924, 0x20, 0x92A, 0x93E, 0x938,
      0x935, 0x930, 0x94D, 0x921, 0x20, 0x92C, 0x928, 0x93E, 0x928, 0x947, 0x20, 0x915,
      0x947, 0x20, 0x932, 0x93F, 0x90F, 0x2C, 0x20, 0x915, 0x92E, 0x20, 0x938, 0x947, 0x20,
      0x915, 0x92E, 0x20, 0x31, 0x32, 0x20, 0x905, 0x915, 0x94D, 0x937, 0x930, 0x2C, 0x20,
      0x92C, 0x921, 0x93C, 0x947, 0x20, 0x914, 0x930, 0x20, 0x91B, 0x94B, 0x91F, 0x947,
      0x20, 0x905, 0x915, 0x94D, 0x937, 0x930, 0x2C, 0x20, 0x938, 0x902, 0x916, 0x94D,
      0x92F, 0x93E, 0x20, 0x914, 0x930, 0x20, 0x92A, 0x94D, 0x930, 0x924, 0x940, 0x915,
      0x94B, 0x902, 0x20, 0x915, 0x93E, 0x20, 0x909, 0x92A, 0x92F, 0x94B, 0x917, 0x20,
      0x915, 0x930, 0x947, 0x902, 0x964]"

definition hi_IN_privacy :: jsstring where
  "hi_IN_privacy =
     [0x905, 0x92A, 0x928, 0x940, 0x20, 0x917, 0x94B, 0x92A, 0x928, 0x940, 0x92F, 0x924,
      0x93E, 0x20, 0x938, 0x947, 0x91F, 0x93F, 0x902, 0x917, 0x94D, 0x938, 0x20, 0x915,
      0x940, 0x20, 0x928, 0x93F, 0x92F, 0x92E, 0x93F, 0x924, 0x20, 0x91C, 0x93E, 0x902,
      0x91A, 0x20, 0x915, 0x930, 0x947, 0x902, 0x964, 0x20, 0x909, 0x928, 0x20, 0x910,
      0x92A, 0x94D, 0x938, 0x20, 0x915, 0x947, 0x20, 0x932, 0x93F, 0x90F, 0x20, 0x938,
      0x94D, 0x925, 0x93E, 0x928, 0x20, 0x938, 0x947, 0x935, 0x93E, 0x90F, 0x902, 0x20,
      0x92C, 0x902, 0x926, 0x20, 0x915, 0x930, 0x947, 0x902, 0x20, 0x91C, 0x93F, 0x928,
      0x94D, 0x939, 0x947, 0x902, 0x20, 0x907, 0x938, 0x915, 0x940, 0x20, 0x906, 0x935,
      0x936, 0x94D, 0x92F, 0x915, 0x924, 0x93E, 0x20, 0x928, 0x939, 0x940, 0x902, 0x20,
      0x939, 0x948, 0x964]"

definition mr_IN_default :: jsstring where
  "mr_IN_default =
     [0x92E, 0x940, 0x20, 0x924, 0x941, 0x92E, 0x94D, 0x939, 0x93E, 0x932, 0x93E, 0x20,
      0x921, 0x93F, 0x91C, 0x93F, 0x91F, 0x932, 0x20, 0x938, 0x941, 0x930, 0x915, 0x94D,
      0x937, 0x947, 0x924, 0x20, 0x92E, 0x926, 0x924, 0x20, 0x915, 0x930, 0x942, 0x20,
      0x936, 0x915, 0x924, 0x94B, 0x2E, 0x20, 0x92E, 0x932, 0x93E, 0x20, 0x92A, 0x93E,
      0x938, 0x935, 0x930, 0x94D, 0x921, 0x2C, 0x20, 0x92B, 0x93F, 0x936, 0x93F, 0x902,
      0x917, 0x20, 0x915, 0x93F, 0x902, 0x935, 0x93E, 0x20, 0x917, 0x94B, 0x92A, 0x928,
      0x940, 0x92F, 0x924, 0x93E, 0x20, 0x938, 0x947, 0x91F, 0x93F, 0x902, 0x917, 0x94D,
      0x91C, 0x20, 0x92C, 0x926, 0x94D, 0x926, 0x932, 0x20, 0x935, 0x93F, 0x91A, 0x93E,
      0x930, 0x93E, 0x2E]"

definition mr_IN_password :: jsstring where
  "mr_IN_password =
     [0x92E, 0x91C, 0x92C, 0x942, 0x924, 0x20, 0x92A, 0x93E, 0x938, 0x935, 0x930, 0x94D,
      0x921, 0x20, 0x924, 0x92F, 0x93E, 0x930, 0x20, 0x915, 0x930, 0x923, 0x94D, 0x92F,
      0x93E, 0x938, 0x93E, 0x920, 0x940, 0x2C, 0x20, 0x915, 0x93F, 0x92E, 0x93E, 0x928,
      0x20, 0x31, 0x32, 0x20, 0x905, 0x915, 0x94D, 0x937, 0x930, 0x947, 0x2C, 0x20, 0x92E,
      0x94B, 0x920, 0x940, 0x20, 0x906, 0x923, 0x93F, 0x20, 0x932, 0x939, 0x93E, 0x928,
      0x20, 0x905, 0x915, 0x94D, 0x937, 0x930, 0x947, 0x2C, 0x20, 0x915, 0x94D, 0x930,
      0x92E, 0x93E, 0x902, 0x915, 0x20, 0x906, 0x923, 0x93F, 0x20, 0x91A, 0x93F, 0x928,
      0x94D, 0x939, 0x947, 0x20, 0x935, 0x93E, 0x92A, 0x930, 0x93E, 0x2E]"

definition mr_IN_privacy :: jsstring where
  "mr_IN_privacy =
     [0x906, 0x92A, 0x932, 0x94D, 0x92F, 0x93E, 0x20, 0x917, 0x94B, 0x92A, 0x928, 0x940,
      0x92F, 0x924, 0x93E, 0x20, 0x938, 0x947, 0x91F, 0x93F, 0x902, 0x917, 0x94D, 0x91C,
      0x20, 0x928, 0x93F, 0x92F, 0x92E, 0x93F, 0x924, 0x20, 0x924, 0x92A, 0x93E, 0x938,
      0x93E, 0x2E, 0x20, 0x91C, 0x94D, 0x92F, 0x93E, 0x20, 0x905, 0x200D, 0x945, 0x92A,
      0x94D, 0x938, 0x928, 0x93E, 0x20, 0x917, 0x930, 0x91C, 0x20, 0x928, 0x93E, 0x939,
      0x940, 0x20, 0x924, 0x94D, 0x92F, 0x93E, 0x902, 0x91A, 0x94D, 0x92F, 0x93E, 0x938,
      0x93E, 0x920, 0x940, 0x20, 0x932, 0x94B, 0x915, 0x947, 0x936, 0x928, 0x20, 0x938,
      0x947, 0x935, 0x93E, 0x20, 0x92C, 0x902, 0x926, 0x20, 0x915, 0x930, 0x93E, 0x2E]"

definition en_US :: Responses where
  "en_US = \<lparr>default' = en_US_default, password = en_US_password, privacy = en_US_privacy\<rparr>"

definition hi_IN :: Responses where
  "hi_IN = \<lparr>default' = hi_IN_default, password = hi_IN_password, privacy = hi_IN_privacy\<rparr>"

definition mr_IN :: Responses where
  "mr_IN = \<lparr>default' = mr_IN_default, password = mr_IN_password, privacy = mr_IN_privacy\<rparr>"

text \<open>
  \<open>responses\<close> is an object literal, and \<^verbatim>\<open>responses[langKey]\<close> is a property
  lookup: it finds the three own properties, and otherwise the properties every
  object literal inherits from \<^verbatim>\<open>Object.prototype\<close>, whose values are built-in
  functions (the prototype object itself for \<^verbatim>\<open>__proto__\<close>).  Such a value is
  truthy, so \<^verbatim>\<open>||\<close> keeps it, and it has no property \<^verbatim>\<open>default\<close>,
  \<^verbatim>\<open>password\<close> or \<^verbatim>\<open>privacy\<close>.  Every other key gives \<^verbatim>\<open>undefined\<close>.
\<close>

datatype jsvalue = JString jsstring | JUndefined

datatype property = Bundle Responses | Inherited

definition objectPrototypeKeys :: "jsstring list" where
  "objectPrototypeKeys = map ascii
     [''constructor'', ''__proto__'', ''hasOwnProperty'', ''isPrototypeOf'',
      ''propertyIsEnumerable'', ''toLocaleString'', ''toString'', ''valueOf'',
      ''__defineGetter__'', ''__defineSetter__'', ''__lookupGetter__'', ''__lookupSetter__'']"

definition responses :: "jsstring \<Rightarrow> property option" where
  "responses key =
     (if key = ascii ''en-US'' then Some (Bundle en_US)
      else if key = ascii ''hi-IN'' then Some (Bundle hi_IN)
      else if key = ascii ''mr-IN'' then Some (Bundle mr_IN)
      else if key \<in> set objectPrototypeKeys then Some Inherited
      else None)"

fun get :: "property \<Rightarrow> (Responses \<Rightarrow> jsstring) \<Rightarrow> jsvalue" where
  "get (Bundle b) field = JString (field b)"
| "get Inherited field = JUndefined"

text \<open>The keywords in Devanagari script of lines 266 and 267.\<close>

definition password_devanagari :: jsstring where
  "password_devanagari = [0x92A, 0x93E, 0x938, 0x935, 0x930, 0x94D, 0x921]"

definition privacy_devanagari :: jsstring where
  "privacy_devanagari = [0x917, 0x94B, 0x92A, 0x928, 0x940, 0x92F, 0x924, 0x93E]"

text \<open>Line 264: \<^verbatim>\<open>responses[langKey] || responses['en-US']\<close>.\<close>

definition langResponses :: "jsstring \<Rightarrow> property" where
  "langResponses lang = (case responses lang of Some p \<Rightarrow> p | None \<Rightarrow> Bundle en_US)"

definition getMockResponse :: "(jsstring \<Rightarrow> nat \<Rightarrow> jsstring) \<Rightarrow> jsstring \<Rightarrow> jsstring \<Rightarrow> jsvalue" where
  "getMockResponse unicodeLower query lang =
     (let lowerQuery = toLowerCase unicodeLower query
      in if includesStr lowerQuery (ascii ''password'') \<or> includesStr lowerQuery password_devanagari
           then get (langResponses lang) password
         else if includesStr lowerQuery (ascii ''privacy'') \<or> includesStr lowerQuery privacy_devanagari
           then get (langResponses lang) privacy
         else get (langResponses lang) default')"

section \<open>The chat component\<close>

subsection \<open>Platform functions\<close>

text \<open>
  \<^verbatim>\<open>String.prototype.trim\<close> removes the white space and line terminators of
  ECMAScript at both ends.
\<close>

definition whiteSpace :: cclass where
  "whiteSpace = [(0x09, 0x0D), (0x20, 0x20), (0xA0, 0xA0), (0x1680, 0x1680), (0x2000, 0x200A),
                 (0x2028, 0x2029), (0x202F, 0x202F), (0x205F, 0x205F), (0x3000, 0x3000),
                 (0xFEFF, 0xFEFF)]"

definition trim :: "jsstring \<Rightarrow> jsstring" where
  "trim s = rev (dropWhile (inClass whiteSpace) (rev (dropWhile (inClass whiteSpace) s)))"

text \<open>
  \<^verbatim>\<open>Date.now()\<close> is a number of milliseconds, and \<^verbatim>\<open>toString\<close> writes it in
  decimal.
\<close>

fun toString :: "nat \<Rightarrow> jsstring" where
  "toString n =
     (if n < 10 then [of_nat (48 + n)] else toString (n div 10) @ [of_nat (48 + n mod 10)])"

declare toString.simps [simp del]

subsection \<open>Data\<close>

record Language =
  code :: jsstring
  name :: jsstring
  label :: jsstring

definition LANGUAGES :: "Language list" where
  "LANGUAGES =
     [\<lparr>code = ascii ''en-US'', name = ascii ''English'', label = ascii ''English''\<rparr>,
      \<lparr>code = ascii ''hi-IN'', name = ascii ''Hindi'',
       label = [0x939, 0x93F, 0x902, 0x926, 0x940]\<rparr>,
      \<lparr>code = ascii ''mr-IN'', name = ascii ''Marathi'',
       label = [0x92E, 0x930, 0x93E, 0x920, 0x940]\<rparr>]"

datatype Role = user | bot

text \<open>
  The type \<^verbatim>\<open>Message\<close>.  The fields \<^verbatim>\<open>id\<close> and \<^verbatim>\<open>text\<close> are primed here; the
  text holds whatever value the code stores.
\<close>

record Message =
  id' :: jsstring
  role :: Role
  text' :: jsvalue
  lang :: "jsstring option"

text \<open>
  A callback waiting in \<^verbatim>\<open>setTimeout(..., 1000)\<close>: the values its closure holds, and
  the clock reading before which the timer does not run it.
\<close>

record Timeout =
  due :: nat
  cleanText :: jsstring
  langCode :: jsstring

text \<open>
  The state of the component: its \<^verbatim>\<open>useState\<close> cells, the pending timeouts, and
  \<^verbatim>\<open>window.speechSynthesis\<close> (the queue of utterances, each a text and a language),
  which is \<open>None\<close> in a browser without speech synthesis.  Speech recognition and
  the unmounting of the component are not modelled; what is recognised arrives
  through \<^verbatim>\<open>setInput\<close>.
\<close>

record State =
  messages :: "Message list"
  input :: jsstring
  selectedLang :: Language
  timeouts :: "Timeout list"
  speechSynthesis :: "(jsvalue \<times> jsstring) list option"

definition init :: "(jsvalue \<times> jsstring) list option \<Rightarrow> State" where
  "init window_speechSynthesis =
     \<lparr>messages = [], input = [], selectedLang = LANGUAGES ! 0, timeouts = [],
      speechSynthesis = window_speechSynthesis\<rparr>"

subsection \<open>Handlers\<close>

datatype error = TypeError

text \<open>
  \<^verbatim>\<open>speechSynthesis.cancel()\<close> removes every utterance from the queue, and
  \<^verbatim>\<open>speechSynthesis.speak(utterance)\<close> adds one at its end.
\<close>

definition cancel :: "(jsvalue \<times> jsstring) list \<Rightarrow> (jsvalue \<times> jsstring) list" where
  "cancel queue = []"

text \<open>\<^verbatim>\<open>speak\<close>, lines 77 to 84.\<close>

definition speak :: "jsvalue \<Rightarrow> jsstring \<Rightarrow> State \<Rightarrow> State" where
  "speak txt lng s =
     (case speechSynthesis s of
        None \<Rightarrow> s
      | Some queue \<Rightarrow> s\<lparr>speechSynthesis := Some (cancel queue @ [(txt, lng)])\<rparr>)"

text \<open>The callback of \<^verbatim>\<open>setTimeout\<close>, lines 64 to 73, run when \<^verbatim>\<open>Date.now()\<close> is \<open>now\<close>.\<close>

definition onTimeout :: "(jsstring \<Rightarrow> nat \<Rightarrow> jsstring) \<Rightarrow> nat \<Rightarrow> Timeout \<Rightarrow> State \<Rightarrow> State" where
  "onTimeout unicodeLower now t s =
     (let botResponse =
            \<lparr>id' = toString (now + 1), role = bot,
             text' = getMockResponse unicodeLower (cleanText t) (langCode t),
             lang = Some (langCode t)\<rparr>
      in speak (text' botResponse) (langCode t) (s\<lparr>messages := messages s @ [botResponse]\<rparr>))"

text \<open>\<^verbatim>\<open>handleSend\<close>, lines 49 to 74, called when \<^verbatim>\<open>Date.now()\<close> is \<open>now\<close>.\<close>

definition handleSend :: "nat \<Rightarrow> State \<Rightarrow> State" where
  "handleSend now s =
     (if trim (input s) = [] then s
      else
        let cleanText = sanitizeInput (input s);
            userMsg = \<lparr>id' = toString now, role = user, text' = JString cleanText, lang = None\<rparr>
        in s\<lparr>messages := messages s @ [userMsg],
              input := [],
              timeouts := timeouts s @
                [\<lparr>due = now + 1000, cleanText = cleanText, langCode = code (selectedLang s)\<rparr>]\<rparr>)"

text \<open>
  \<^verbatim>\<open>clearHistory\<close>, lines 117 to 120.  It reads \<^verbatim>\<open>window.speechSynthesis\<close> with no
  test that the property exists: the call of \<^verbatim>\<open>cancel\<close> on \<^verbatim>\<open>undefined\<close> raises a
  \<^verbatim>\<open>TypeError\<close>, after \<^verbatim>\<open>setMessages([])\<close> has been queued.
\<close>

definition clearHistory :: "State \<Rightarrow> error \<times> State + State" where
  "clearHistory s =
     (let s' = s\<lparr>messages := []\<rparr>
      in case speechSynthesis s' of
           None \<Rightarrow> Inl (TypeError, s')
         | Some queue \<Rightarrow> Inr (s'\<lparr>speechSynthesis := Some (cancel queue)\<rparr>))"

subsection \<open>Runs of the component\<close>

text \<open>
  The events of the user interface and of the timer.  An exception of an event
  handler is reported by the framework and the component goes on with the state
  updates queued before it.
\<close>

datatype Event =
    SetInput jsstring
  | HandleSend nat
  | TimeoutFires nat nat
  | SetSelectedLang nat
  | ClearHistory
  | SpeakMessage nat

definition step :: "(jsstring \<Rightarrow> nat \<Rightarrow> jsstring) \<Rightarrow> State \<Rightarrow> Event \<Rightarrow> State" where
  "step unicodeLower s e =
     (case e of
        SetInput v \<Rightarrow> s\<lparr>input := v\<rparr>
      | HandleSend now \<Rightarrow> handleSend now s
      | TimeoutFires k now \<Rightarrow>
          if k < length (timeouts s)
          then onTimeout unicodeLower now (timeouts s ! k)
                 (s\<lparr>timeouts := take k (timeouts s) @ drop (Suc k) (timeouts s)\<rparr>)
          else s
      | SetSelectedLang k \<Rightarrow> if k < length LANGUAGES then s\<lparr>selectedLang := LANGUAGES ! k\<rparr> else s
      | ClearHistory \<Rightarrow> (case clearHistory s of Inl (err, s') \<Rightarrow> s' | Inr s' \<Rightarrow> s')
      | SpeakMessage k \<Rightarrow>
          if k < length (messages s) \<and> role (messages s ! k) = bot
          then speak (text' (messages s ! k))
                 (case lang (messages s ! k) of
                    None \<Rightarrow> ascii ''en-US''
                  | Some l \<Rightarrow> if l = [] then ascii ''en-US'' else l) s
          else s)"

definition run :: "(jsstring \<Rightarrow> nat \<Rightarrow> jsstring) \<Rightarrow> State \<Rightarrow> Event list \<Rightarrow> State" where
  "run unicodeLower s evs = foldl (step unicodeLower) s evs"

text \<open>
  A run is timely when the clock readings of its events never go back and no timeout
  fires before its delay of 1000 ms has passed.
\<close>

fun timely :: "(jsstring \<Rightarrow> nat \<Rightarrow> jsstring) \<Rightarrow> nat \<Rightarrow> State \<Rightarrow> Event list \<Rightarrow> bool" where
  "timely unicodeLower clock s [] = True"
| "timely unicodeLower clock s (HandleSend now # es) =
     (clock \<le> now \<and> timely unicodeLower now (step unicodeLower s (HandleSend now)) es)"
| "timely unicodeLower clock s (TimeoutFires k now # es) =
     (clock \<le> now \<and> k < length (timeouts s) \<and> due (timeouts s ! k) \<le> now \<and>
      timely unicodeLower now (step unicodeLower s (TimeoutFires k now)) es)"
| "timely unicodeLower clock s (e # es) = timely unicodeLower clock (step unicodeLower s e) es"

section \<open>Reference semantics\<close>

text \<open>
  What it means for a regular expression to match a word \<open>w\<close> that stands between
  the code unit \<open>p\<close> before it and the code unit \<open>nx\<close> after it (\<open>None\<close> at an end of
  the input).  The matcher \<open>ends\<close> is proved to find exactly these matches.
\<close>

fun nextOf :: "jsstring \<Rightarrow> unit16 option \<Rightarrow> unit16 option" where
  "nextOf [] nx = nx"
| "nextOf (u # us) nx = Some u"

fun accepts :: "regex \<Rightarrow> unit16 option \<Rightarrow> jsstring \<Rightarrow> unit16 option \<Rightarrow> bool" where
  "accepts (Chr c) p w nx = (w = [c])"
| "accepts (Rep cls mn mx) p w nx =
     (mn \<le> length w \<and> list_all (inClass cls) w \<and>
      (case mx of None \<Rightarrow> True | Some m \<Rightarrow> length w \<le> m))"
| "accepts WordB p w nx = (w = [] \<and> isWordChar p \<noteq> isWordChar nx)"
| "accepts (Seq r1 r2) p w nx =
     (\<exists>w1 w2. w = w1 @ w2 \<and> accepts r1 p w1 (nextOf w2 nx) \<and>
        accepts r2 (prevAfter p w1 (length w1)) w2 nx)"

text \<open>No position of the input, from the current one on, starts a match.\<close>

fun matchFree :: "regex \<Rightarrow> unit16 option \<Rightarrow> jsstring \<Rightarrow> bool" where
  "matchFree r prev [] = (exec r prev [] = None)"
| "matchFree r prev (c # cs) = (exec r prev (c # cs) = None \<and> matchFree r (Some c) cs)"

text \<open>
  The phone rule in the words of the specification: the input is cut into its
  maximal runs of word characters and the units between them, and a run is replaced
  by the token when it is exactly ten digits.  A run of nine or eleven digits, and a
  run of ten digits inside a longer alphanumeric run, stay as they are.
\<close>

function redactTenDigitRuns :: "jsstring \<Rightarrow> jsstring" where
  "redactTenDigitRuns [] = []"
| "redactTenDigitRuns (c # cs) =
     (if inClass wordClass c
      then (let token = takeWhile (inClass wordClass) (c # cs);
                rest = dropWhile (inClass wordClass) (c # cs)
            in (if length token = 10 \<and> list_all (inClass digitClass) token
                then PHONE_REDACTED else token) @ redactTenDigitRuns rest)
      else c # redactTenDigitRuns cs)"
  by pat_completeness auto
termination
  by (relation "measure length") (auto simp: length_dropWhile_le less_Suc_eq_le)

section \<open>Properties\<close>

subsection \<open>The matcher and the reference semantics\<close>

lemma le_length_takeWhile:
  "n \<le> length (takeWhile P s) \<longleftrightarrow> n \<le> length s \<and> list_all P (take n s)"
proof (induction s arbitrary: n)
  case Nil
  then show ?case by simp
next
  case (Cons x xs)
  then show ?case by (cases n) auto
qed

lemma first_drop: "first (drop n s) = (if n < length s then Some (s ! n) else None)"
proof (induction s arbitrary: n)
  case Nil
  then show ?case by simp
next
  case (Cons x xs)
  then show ?case by (cases n) auto
qed

lemma first_eq_Some: "first s = Some c \<longleftrightarrow> (\<exists>t. s = c # t)"
  by (cases s) auto

lemma nextOf_first: "nextOf w (first t) = first (w @ t)"
  by (cases w) auto

lemma prevAfter_take: "i \<le> n \<Longrightarrow> prevAfter p (take n s) i = prevAfter p s i"
  by (cases i) (auto simp: prevAfter_def first_drop)

text \<open>
  The matcher is sound and complete: the lengths it lists are exactly those of the
  prefixes of the input that the expression accepts at this position.
\<close>

lemma ends_accepts:
  "n \<in> set (ends r p s) \<longleftrightarrow> n \<le> length s \<and> accepts r p (take n s) (first (drop n s))"
proof (induction r arbitrary: n p s)
  case (Chr c)
  show ?case
  proof (cases s)
    case Nil
    then show ?thesis by simp
  next
    case (Cons x xs)
    then show ?thesis by (cases n) auto
  qed
next
  case (Rep cls mn mx)
  have "n \<in> set (ends (Rep cls mn mx) p s) \<longleftrightarrow>
      mn \<le> n \<and> n \<le> length (takeWhile (inClass cls) s) \<and>
      (case mx of None \<Rightarrow> True | Some m \<Rightarrow> n \<le> m)"
    by (cases mx) (auto simp: Let_def)
  also have "\<dots> \<longleftrightarrow> n \<le> length s \<and> accepts (Rep cls mn mx) p (take n s) (first (drop n s))"
    unfolding le_length_takeWhile by (cases mx) (auto simp: min_absorb2)
  finally show ?case .
next
  case WordB
  then show ?case by (cases s) auto
next
  case (Seq r1 r2)
  show ?case
  proof
    assume "n \<in> set (ends (Seq r1 r2) p s)"
    then obtain n1 n2 where n1: "n1 \<in> set (ends r1 p s)"
      and n2: "n2 \<in> set (ends r2 (prevAfter p s n1) (drop n1 s))" and n: "n = n1 + n2"
      by auto
    from n1 Seq.IH(1) have a1: "n1 \<le> length s" "accepts r1 p (take n1 s) (first (drop n1 s))"
      by auto
    from n2 Seq.IH(2) have a2: "n2 \<le> length s - n1"
      "accepts r2 (prevAfter p s n1) (take n2 (drop n1 s)) (first (drop n2 (drop n1 s)))"
      by auto
    have t: "take n s = take n1 s @ take n2 (drop n1 s)"
      unfolding n by (simp add: take_add)
    have nx: "nextOf (take n2 (drop n1 s)) (first (drop n s)) = first (drop n1 s)"
    proof -
      have "drop n s = drop n2 (drop n1 s)" by (simp add: n add.commute)
      then show ?thesis by (simp only: nextOf_first append_take_drop_id)
    qed
    have pv: "prevAfter p (take n1 s) (length (take n1 s)) = prevAfter p s n1"
      using a1(1) by (simp add: prevAfter_take min_absorb2)
    have "accepts (Seq r1 r2) p (take n s) (first (drop n s))"
      apply (simp only: accepts.simps)
      apply (rule exI [of _ "take n1 s"], rule exI [of _ "take n2 (drop n1 s)"])
      using a1 a2 t nx pv by (simp add: n add.commute)
    moreover have "n \<le> length s" using a1(1) a2(1) n by simp
    ultimately show "n \<le> length s \<and> accepts (Seq r1 r2) p (take n s) (first (drop n s))" by simp
  next
    assume r: "n \<le> length s \<and> accepts (Seq r1 r2) p (take n s) (first (drop n s))"
    then obtain w1 w2 where w: "take n s = w1 @ w2"
      and a1: "accepts r1 p w1 (nextOf w2 (first (drop n s)))"
      and a2: "accepts r2 (prevAfter p w1 (length w1)) w2 (first (drop n s))"
      by auto
    let ?n1 = "length w1" and ?n2 = "length w2"
    have len: "n = ?n1 + ?n2" using w r by (metis length_append length_take min_absorb2)
    have w1: "w1 = take ?n1 s"
      using w by (metis append_eq_conv_conj take_take len le_add1 min_absorb1)
    have w2: "w2 = take ?n2 (drop ?n1 s)"
      using w len by (metis append_eq_conv_conj add.commute take_drop)
    have s: "s = w1 @ w2 @ drop n s" using w by (metis append_assoc append_take_drop_id)
    have d1: "drop ?n1 s = w2 @ drop n s" using s by (metis append_eq_conv_conj)
    have nx: "nextOf w2 (first (drop n s)) = first (drop ?n1 s)"
      by (simp add: d1 nextOf_first)
    have pv: "prevAfter p w1 ?n1 = prevAfter p s ?n1"
      using prevAfter_take [of ?n1 ?n1 p s] w1 by simp
    have dd: "drop ?n2 (drop ?n1 s) = drop n s" by (simp add: len add.commute)
    have "?n1 \<in> set (ends r1 p s)"
      using a1 Seq.IH(1) [of ?n1 p s] len r w1 nx by auto
    moreover have "?n2 \<in> set (ends r2 (prevAfter p s ?n1) (drop ?n1 s))"
      using a2 Seq.IH(2) [of ?n2 "prevAfter p s ?n1" "drop ?n1 s"] len r w2 pv dd by auto
    ultimately show "n \<in> set (ends (Seq r1 r2) p s)"
      using len by auto
  qed
qed

lemma exec_None_iff: "exec r p s = None \<longleftrightarrow> ends r p s = []"
  by (simp add: exec_def split: list.splits)

lemma exec_SomeD: "exec r p s = Some n \<Longrightarrow> n \<in> set (ends r p s)"
  by (auto simp: exec_def split: list.splits)

lemma exec_Some_accepts:
  "exec r p s = Some n \<Longrightarrow> n \<le> length s \<and> accepts r p (take n s) (first (drop n s))"
  using exec_SomeD ends_accepts by blast

lemma accepts_exec:
  assumes "accepts r p w (first t)"
  shows "exec r p (w @ t) \<noteq> None"
proof -
  have "length w \<in> set (ends r p (w @ t))"
    using assms by (simp add: ends_accepts)
  then show ?thesis by (auto simp: exec_None_iff)
qed

text \<open>
  When an expression has no empty match, the replacement loop has two steps (keep a
  unit, or replace a match and go on behind it); they give an induction rule.
\<close>

lemma replaceAll_induct_nonempty [consumes 1, case_names Nil NoMatch Match]:
  assumes ne: "\<And>p s. 0 \<notin> set (ends r p s)"
    and nil: "\<And>p. P p []"
    and nomatch: "\<And>p c cs. exec r p (c # cs) = None \<Longrightarrow> P (Some c) cs \<Longrightarrow> P p (c # cs)"
    and match: "\<And>p c cs n. exec r p (c # cs) = Some n \<Longrightarrow> 0 < n \<Longrightarrow> n \<le> Suc (length cs) \<Longrightarrow>
        P (prevAfter p (c # cs) n) (drop n (c # cs)) \<Longrightarrow> P p (c # cs)"
  shows "P p s"
proof (induction s arbitrary: p rule: length_induct)
  case (1 s)
  show ?case
  proof (cases s)
    case Nil
    then show ?thesis by (simp add: nil)
  next
    case (Cons c cs)
    show ?thesis
    proof (cases "exec r p (c # cs)")
      case None
      then show ?thesis using 1 Cons nomatch by simp
    next
      case (Some n)
      have n0: "0 < n"
      proof (rule ccontr)
        assume "\<not> 0 < n"
        then have "n = 0" by simp
        with exec_SomeD [OF Some] ne show False by blast
      qed
      have nl: "n \<le> Suc (length cs)" using exec_Some_accepts [OF Some] by simp
      have "length (drop n (c # cs)) < length s" using n0 Cons by simp
      then have "P (prevAfter p (c # cs) n) (drop n (c # cs))" using 1 by blast
      then show ?thesis using match [OF Some n0 nl] Cons by simp
    qed
  qed
qed

lemma replaceAll_simps_nonempty:
  assumes ne: "\<And>p s. 0 \<notin> set (ends r p s)"
  shows "replaceAll r repl p [] = []"
    and "exec r p (c # cs) = None \<Longrightarrow>
      replaceAll r repl p (c # cs) = c # replaceAll r repl (Some c) cs"
    and "exec r p (c # cs) = Some n \<Longrightarrow>
      replaceAll r repl p (c # cs) = repl @ replaceAll r repl (prevAfter p (c # cs) n) (drop n (c # cs))"
proof -
  have "exec r p [] = None"
  proof (cases "exec r p []")
    case (Some n)
    then have "n = 0" using exec_Some_accepts [OF Some] by simp
    with exec_SomeD [OF Some] ne show ?thesis by blast
  qed simp
  then show "replaceAll r repl p [] = []" by simp
next
  show "exec r p (c # cs) = None \<Longrightarrow>
      replaceAll r repl p (c # cs) = c # replaceAll r repl (Some c) cs" by simp
next
  assume e: "exec r p (c # cs) = Some n"
  have "n \<noteq> 0"
  proof
    assume "n = 0"
    with exec_SomeD [OF e] ne show False by blast
  qed
  then show "replaceAll r repl p (c # cs) = repl @ replaceAll r repl (prevAfter p (c # cs) n) (drop n (c # cs))"
    using e by simp
qed

lemma replaceAll_matchFree: "matchFree r p s \<Longrightarrow> replaceAll r repl p s = s"
  by (induction s arbitrary: p) auto

subsection \<open>The email pattern\<close>

lemma class_incl:
  "inClass domainClass u \<Longrightarrow> inClass localClass u"
  "inClass alphaClass u \<Longrightarrow> inClass domainClass u"
  "inClass digitClass u \<Longrightarrow> inClass wordClass u"
  "inClass digitClass u \<Longrightarrow> inClass domainClass u"
  by (auto simp: domainClass_def localClass_def alphaClass_def digitClass_def wordClass_def)

text \<open>
  The words the email pattern accepts: a local part, \<^verbatim>\<open>@\<close>, a domain, a dot and at
  least two letters.  The pattern looks at no unit outside the match.
\<close>

lemma accepts_email:
  "accepts emailRegex p w nx \<longleftrightarrow>
     (\<exists>l d t. w = l @ 0x40 # d @ 0x2E # t \<and> l \<noteq> [] \<and> list_all (inClass localClass) l \<and>
        d \<noteq> [] \<and> list_all (inClass domainClass) d \<and>
        2 \<le> length t \<and> list_all (inClass alphaClass) t)"
proof
  assume "accepts emailRegex p w nx"
  then show "\<exists>l d t. w = l @ 0x40 # d @ 0x2E # t \<and> l \<noteq> [] \<and> list_all (inClass localClass) l \<and>
        d \<noteq> [] \<and> list_all (inClass domainClass) d \<and>
        2 \<le> length t \<and> list_all (inClass alphaClass) t"
    by (auto simp: emailRegex_def Suc_le_eq)
next
  assume "\<exists>l d t. w = l @ 0x40 # d @ 0x2E # t \<and> l \<noteq> [] \<and> list_all (inClass localClass) l \<and>
        d \<noteq> [] \<and> list_all (inClass domainClass) d \<and>
        2 \<le> length t \<and> list_all (inClass alphaClass) t"
  then obtain l d t where w: "w = l @ 0x40 # d @ 0x2E # t" and l: "l \<noteq> []"
    "list_all (inClass localClass) l" and d: "d \<noteq> []" "list_all (inClass domainClass) d"
    and t: "2 \<le> length t" "list_all (inClass alphaClass) t"
    by blast
  have "accepts (Seq (Chr 0x2E) (Rep alphaClass 2 None)) q (0x2E # t) nx" for q
    using t by (simp only: accepts.simps(4), intro exI [of _ "[0x2E]"] exI [of _ t]) simp
  then have "accepts (Seq (Rep domainClass 1 None) (Seq (Chr 0x2E) (Rep alphaClass 2 None)))
      q (d @ 0x2E # t) nx" for q
    using d by (simp only: accepts.simps(4), intro exI [of _ d] exI [of _ "0x2E # t"])
      (simp add: Suc_le_eq)
  then have "accepts (Seq (Chr 0x40) (Seq (Rep domainClass 1 None)
      (Seq (Chr 0x2E) (Rep alphaClass 2 None)))) q (0x40 # d @ 0x2E # t) nx" for q
    by (simp only: accepts.simps(4), intro exI [of _ "[0x40]"] exI [of _ "d @ 0x2E # t"]) simp
  then show "accepts emailRegex p w nx"
    unfolding emailRegex_def w using l
    by (simp only: accepts.simps(4), intro exI [of _ l] exI [of _ "0x40 # d @ 0x2E # t"])
      (simp add: Suc_le_eq)
qed

lemma ends_email_nonempty: "0 \<notin> set (ends emailRegex p s)"
  by (auto simp: ends_accepts accepts_email)

lemma accepts_email_shape:
  assumes "accepts emailRegex p w nx"
  shows "w \<noteq> []" "0x40 \<in> set w" "\<forall>u \<in> set w. inClass localClass u \<or> u = 0x40"
proof -
  from assms obtain l d t where w: "w = l @ 0x40 # d @ 0x2E # t"
    and l: "list_all (inClass localClass) l" and d: "list_all (inClass domainClass) d"
    and t: "list_all (inClass alphaClass) t"
    unfolding accepts_email by blast
  show "w \<noteq> []" "0x40 \<in> set w" using w by auto
  have dot: "inClass localClass 0x2E" by (simp add: localClass_def)
  show "\<forall>u \<in> set w. inClass localClass u \<or> u = 0x40"
    using l d t dot unfolding w by (auto simp: list_all_iff class_incl)
qed

lemma exec_email_prev: "exec emailRegex p s = exec emailRegex p' s"
  by (simp add: exec_def emailRegex_def)

lemma matchFree_email_prev: "matchFree emailRegex p s = matchFree emailRegex p' s"
proof (cases s)
  case Nil
  then show ?thesis using exec_email_prev [of p "[]" p'] by simp
next
  case (Cons c cs)
  then show ?thesis using exec_email_prev [of p "c # cs" p'] by simp
qed

declare replaceAll.simps [simp del]

lemmas replaceAll_email_induct =
  replaceAll_induct_nonempty [of emailRegex, OF ends_email_nonempty, case_names Nil NoMatch Match]

lemmas replaceAll_email_simps = replaceAll_simps_nonempty [of emailRegex, OF ends_email_nonempty]

lemma exec_email_prefix:
  assumes "exec emailRegex p z = Some n" and "prefix (take n z) z'"
  shows "exec emailRegex p' z' \<noteq> None"
proof -
  from assms(2) obtain t where z': "z' = take n z @ t" by (auto simp: prefix_def)
  have "accepts emailRegex p (take n z) (first (drop n z))"
    using exec_Some_accepts [OF assms(1)] by simp
  then have "accepts emailRegex p' (take n z) (first t)"
    by (simp add: accepts_email)
  then show ?thesis unfolding z' by (rule accepts_exec)
qed

lemma exec_email_match_units:
  assumes "exec emailRegex p z = Some n"
  shows "0 < n" "n \<le> length z" "0x40 \<in> set (take n z)" "0x5B \<notin> set (take n z)"
    "\<forall>u \<in> set (take n z). inClass localClass u \<or> u = 0x40"
proof -
  have a: "accepts emailRegex p (take n z) (first (drop n z))" and n: "n \<le> length z"
    using exec_Some_accepts [OF assms] by simp_all
  show "n \<le> length z" by (rule n)
  show "0 < n" using accepts_email_shape(1) [OF a] by (cases n) auto
  show "0x40 \<in> set (take n z)" by (rule accepts_email_shape(2) [OF a])
  show u: "\<forall>u \<in> set (take n z). inClass localClass u \<or> u = 0x40"
    by (rule accepts_email_shape(3) [OF a])
  have "\<not> (inClass localClass (0x5B :: unit16) \<or> (0x5B :: unit16) = 0x40)"
    by (simp add: localClass_def)
  then show "0x5B \<notin> set (take n z)" using u by blast
qed

lemma EMAIL_REDACTED_units:
  "\<exists>t. EMAIL_REDACTED = 0x5B # t" "0x40 \<notin> set EMAIL_REDACTED"
  "EMAIL_REDACTED \<noteq> []" "\<not> inClass localClass (last EMAIL_REDACTED)"
  by (simp_all add: EMAIL_REDACTED_def ascii_def localClass_def)

text \<open>
  After the email substitution no position starts a match.  A match in the result
  cannot contain a bracket of the token, so it would lie in a stretch of kept units,
  where the input has it as well, at a position the loop found no match at.
\<close>

lemma prefix_replace_email:
  "prefix u (replaceAll emailRegex EMAIL_REDACTED p s) \<Longrightarrow> 0x5B \<notin> set u \<Longrightarrow> prefix u s"
proof (induction p s arbitrary: u rule: replaceAll_email_induct)
  case (Nil p)
  then show ?case by (simp add: replaceAll_email_simps)
next
  case (NoMatch p c cs)
  then show ?case by (cases u) (auto simp: replaceAll_email_simps)
next
  case (Match p c cs n)
  obtain t where t: "EMAIL_REDACTED = 0x5B # t" using EMAIL_REDACTED_units(1) by blast
  from Match.prems(1) have "prefix u (0x5B # t @
      replaceAll emailRegex EMAIL_REDACTED (prevAfter p (c # cs) n) (drop n (c # cs)))"
    by (simp add: replaceAll_email_simps(3) [OF Match.hyps(1)] t)
  then show ?case using Match.prems(2) by (cases u) auto
qed

lemma matchFree_email_block:
  assumes "0x40 \<notin> set e" and "e \<noteq> [] \<longrightarrow> \<not> inClass localClass (last e)"
    and "matchFree emailRegex q R"
  shows "matchFree emailRegex q' (e @ R)"
  using assms(1,2)
proof (induction e arbitrary: q')
  case Nil
  then show ?case using assms(3) matchFree_email_prev by auto
next
  case (Cons x xs)
  have "exec emailRegex q' (x # xs @ R) = None"
  proof (cases "exec emailRegex q' (x # xs @ R)")
    case (Some n)
    let ?w = "take n (x # xs @ R)"
    note m = exec_email_match_units [OF Some]
    show ?thesis
    proof (cases "n \<le> length (x # xs)")
      case True
      then have "?w = take n (x # xs)" by (metis append_Cons take_append diff_is_0_eq take_0 append_Nil2)
      then have "set ?w \<subseteq> set (x # xs)" by (metis set_take_subset)
      with m(3) Cons.prems(1) show ?thesis by blast
    next
      case False
      then have "?w = (x # xs) @ take (n - length (x # xs)) R"
        by (metis append_Cons take_append take_all nat_le_linear)
      then have "last (x # xs) \<in> set ?w" by (metis last_in_set list.discI set_append UnI1)
      moreover have "last (x # xs) \<noteq> 0x40" using Cons.prems(1) by (metis last_in_set list.discI)
      ultimately show ?thesis using m(5) Cons.prems(2) by blast
    qed
  qed simp
  moreover have "matchFree emailRegex (Some x) (xs @ R)"
    using Cons by (cases xs) auto
  ultimately show ?case by simp
qed

lemma matchFree_replace_email:
  "matchFree emailRegex q (replaceAll emailRegex EMAIL_REDACTED p s)"
proof (induction p s arbitrary: q rule: replaceAll_email_induct)
  case (Nil p)
  have "exec emailRegex q [] = None" by (simp add: exec_def emailRegex_def)
  then show ?case by (simp add: replaceAll_email_simps)
next
  case (NoMatch p c cs)
  let ?R = "replaceAll emailRegex EMAIL_REDACTED (Some c) cs"
  have r: "replaceAll emailRegex EMAIL_REDACTED p (c # cs) = c # ?R"
    by (simp add: replaceAll_email_simps(2) [OF NoMatch.hyps])
  have "exec emailRegex q (c # ?R) = None"
  proof (cases "exec emailRegex q (c # ?R)")
    case (Some n)
    note m = exec_email_match_units [OF Some]
    have "prefix (take n (c # ?R)) (c # ?R)" by (rule take_is_prefix)
    then have "prefix (take n (c # ?R)) (c # cs)"
      using prefix_replace_email [of "take n (c # ?R)" p "c # cs"] r m(4) by simp
    from exec_email_prefix [OF Some this] NoMatch.hyps show ?thesis by blast
  qed simp
  then show ?case using NoMatch.IH r by simp
next
  case (Match p c cs n)
  show ?case
    unfolding replaceAll_email_simps(3) [OF Match.hyps(1)]
    by (rule matchFree_email_block [OF EMAIL_REDACTED_units(2) _ Match.IH])
      (simp add: EMAIL_REDACTED_units(4))
qed

lemma replace_email_idem:
  "replaceAll emailRegex EMAIL_REDACTED q (replaceAll emailRegex EMAIL_REDACTED p s)
     = replaceAll emailRegex EMAIL_REDACTED p s"
  by (rule replaceAll_matchFree [OF matchFree_replace_email])

text \<open>The match at the start of an address that fills the rest of the input.\<close>

text \<open>
  The first match of a concatenation: the first length of the left part that the
  right part can continue.
\<close>

lemma exec_Seq_first:
  assumes "ends r1 p s = skipped @ n1 # ns"
    and "\<forall>n \<in> set skipped. ends r2 (prevAfter p s n) (drop n s) = []"
    and "ends r2 (prevAfter p s n1) (drop n1 s) = n2 # ms"
  shows "\<exists>rest. ends (Seq r1 r2) p s = (n1 + n2) # rest"
proof -
  let ?F = "\<lambda>n. map ((+) n) (ends r2 (prevAfter p s n) (drop n s))"
  have "concat (map ?F skipped) = []" using assms(2) by simp
  then have "ends (Seq r1 r2) p s = ?F n1 @ concat (map ?F ns)"
    by (simp add: assms(1))
  then show ?thesis by (simp add: assms(3))
qed

lemma greedy_candidates:
  assumes "mn \<le> j" and "j \<le> k"
  shows "rev [mn ..< Suc k] = rev [Suc j ..< Suc k] @ j # rev [mn ..< j]"
proof -
  have "[mn ..< Suc k] = [mn ..< j] @ [j ..< Suc k]"
    using assms by (metis le_Suc_eq upt_add_eq_append le_iff_add)
  also have "[j ..< Suc k] = j # [Suc j ..< Suc k]"
    using assms by (simp add: upt_rec)
  finally show ?thesis by simp
qed

lemma takeWhile_all: "list_all P xs \<Longrightarrow> takeWhile P xs = xs"
  by (simp add: list_all_iff)

lemma takeWhile_stop: "list_all P xs \<Longrightarrow> \<not> P y \<Longrightarrow> takeWhile P (xs @ y # ys) = xs"
  by (simp add: list_all_iff takeWhile_tail)

lemma exec_email_address:
  assumes l: "l \<noteq> []" "list_all (inClass localClass) l"
    and d: "d \<noteq> []" "list_all (inClass domainClass) d"
    and t: "2 \<le> length t" "list_all (inClass alphaClass) t"
  shows "exec emailRegex p (l @ 0x40 # d @ 0x2E # t) = Some (length (l @ 0x40 # d @ 0x2E # t))"
proof -
  let ?dom = "d @ 0x2E # t"
  let ?T3 = "Seq (Chr 0x2E) (Rep alphaClass 2 None)"
  let ?T2 = "Seq (Rep domainClass 1 None) ?T3"
  let ?T1 = "Seq (Chr 0x40) ?T2"
  have tl: "2 \<le> length t" by (rule t(1))
  \<comment> \<open>the top-level domain after the last dot\<close>
  have "ends (Rep alphaClass 2 None) q t = length t # rev [2 ..< length t]" for q
    using tl by (simp add: Let_def takeWhile_all [OF t(2)])
  then have T3: "\<exists>rest. ends ?T3 q (0x2E # t) = (1 + length t) # rest" for q
    by (intro exec_Seq_first [of _ _ _ "[]"]) (simp_all add: prevAfter_def)
  \<comment> \<open>the domain: every candidate beyond the last dot fails\<close>
  have dot: "inClass domainClass (0x2E :: unit16)" by (simp add: domainClass_def)
  have dom_all: "list_all (inClass domainClass) ?dom"
    using d(2) t(2) dot by (auto simp: list_all_iff class_incl)
  have cand: "ends (Rep domainClass 1 None) q ?dom =
      rev [Suc (length d) ..< Suc (length ?dom)] @ length d # rev [1 ..< length d]" for q
  proof -
    have "ends (Rep domainClass 1 None) q ?dom = rev [1 ..< Suc (length ?dom)]"
      by (simp only: ends.simps Let_def takeWhile_all [OF dom_all] option.case)
    also have "\<dots> = rev [Suc (length d) ..< Suc (length ?dom)] @ length d # rev [1 ..< length d]"
      by (rule greedy_candidates) (use d(1) in \<open>simp_all add: Suc_le_eq\<close>)
    finally show ?thesis .
  qed
  have skip: "ends ?T3 q' (drop n ?dom) = []" if "n \<in> set (rev [Suc (length d) ..< Suc (length ?dom)])"
    for n q'
  proof -
    from that have n: "length d < n" "n \<le> Suc (length d + length t)" by auto
    then obtain k where k: "n = Suc (length d + k)"
      by (metis less_iff_Suc_add)
    have dr: "drop n ?dom = drop (n - Suc (length d)) t" by (simp add: k)
    have "first (drop n ?dom) \<noteq> Some 0x2E"
    proof
      assume "first (drop n ?dom) = Some 0x2E"
      then have "0x2E \<in> set (drop (n - Suc (length d)) t)"
        unfolding dr by (auto simp: first_eq_Some)
      then have "0x2E \<in> set t" by (meson in_set_dropD)
      then have "inClass alphaClass (0x2E :: unit16)" using t(2) by (simp add: list_all_iff)
      then show False by (simp add: alphaClass_def)
    qed
    then show ?thesis by simp
  qed
  have T2: "\<exists>rest. ends ?T2 q ?dom = (length d + (1 + length t)) # rest" for q
  proof -
    have "drop (length d) ?dom = 0x2E # t" by simp
    then obtain r3 where "ends ?T3 (prevAfter q ?dom (length d)) (drop (length d) ?dom)
        = (1 + length t) # r3"
      using T3 [of "prevAfter q ?dom (length d)"] by auto
    from exec_Seq_first [OF cand _ this] skip show ?thesis by blast
  qed
  have T1: "\<exists>rest. ends ?T1 q (0x40 # ?dom) = (1 + (length d + (1 + length t))) # rest" for q
  proof -
    have "drop 1 (0x40 # ?dom) = ?dom" by simp
    then obtain r2 where "ends ?T2 (prevAfter q (0x40 # ?dom) 1) (drop 1 (0x40 # ?dom))
        = (length d + (1 + length t)) # r2"
      using T2 [of "prevAfter q (0x40 # ?dom) 1"] by auto
    then show ?thesis
      by (intro exec_Seq_first [of _ _ _ "[]" 1 "[]"]) simp_all
  qed
  \<comment> \<open>the local part is taken whole at once\<close>
  have at_nl: "\<not> inClass localClass (0x40 :: unit16)" by (simp add: localClass_def)
  have "ends (Rep localClass 1 None) p (l @ 0x40 # ?dom) = length l # rev [1 ..< length l]"
    using l(1) by (simp add: Let_def takeWhile_stop [OF l(2) at_nl] Suc_le_eq)
  moreover have "drop (length l) (l @ 0x40 # ?dom) = 0x40 # ?dom" by simp
  then obtain r1 where "ends ?T1 (prevAfter p (l @ 0x40 # ?dom) (length l))
      (drop (length l) (l @ 0x40 # ?dom)) = (1 + (length d + (1 + length t))) # r1"
    using T1 [of "prevAfter p (l @ 0x40 # ?dom) (length l)"] by auto
  ultimately have "\<exists>rest. ends emailRegex p (l @ 0x40 # ?dom)
      = (length l + (1 + (length d + (1 + length t)))) # rest"
    unfolding emailRegex_def by (intro exec_Seq_first [of _ _ _ "[]"]) simp_all
  then show ?thesis by (auto simp: exec_def)
qed

lemma replace_email_address:
  assumes "l \<noteq> []" "list_all (inClass localClass) l"
    and "d \<noteq> []" "list_all (inClass domainClass) d"
    and "2 \<le> length t" "list_all (inClass alphaClass) t"
  shows "replaceAll emailRegex EMAIL_REDACTED p (l @ 0x40 # d @ 0x2E # t) = EMAIL_REDACTED"
proof -
  obtain c cs where x: "l @ 0x40 # d @ 0x2E # t = c # cs" by (cases l) auto
  have "exec emailRegex p (c # cs) = Some (length (c # cs))"
    using exec_email_address [OF assms, of p] unfolding x .
  from replaceAll_email_simps(3) [OF this, of EMAIL_REDACTED]
  show ?thesis unfolding x by (simp add: replaceAll_email_simps(1))
qed

subsection \<open>The phone pattern\<close>

lemma takeWhile_nth_holds: "i < length (takeWhile P s) \<Longrightarrow> P (s ! i)"
  by (metis nth_mem set_takeWhileD takeWhile_nth)

lemma run_split:
  assumes "n \<le> length s" and "list_all P (take n s)"
    and "\<And>u. first (drop n s) = Some u \<Longrightarrow> \<not> P u"
  shows "takeWhile P s = take n s" and "dropWhile P s = drop n s"
proof -
  have s: "s = take n s @ drop n s" by simp
  have d: "takeWhile P (drop n s) = []" "dropWhile P (drop n s) = drop n s"
    using assms(3) by (cases "drop n s"; simp)+
  have a: "\<forall>x \<in> set (take n s). P x" using assms(2) by (simp add: list_all_iff)
  show "takeWhile P s = take n s"
    by (subst s, subst takeWhile_append2) (use a d in auto)
  show "dropWhile P s = drop n s"
    by (subst s, subst dropWhile_append2) (use a d in auto)
qed

lemma first_dropWhile: "first (dropWhile P s) = Some u \<Longrightarrow> \<not> P u"
  by (metis first_eq_Some hd_dropWhile list.discI list.sel(1))

lemma digits_cases [simp]:
  "[10 ..< Suc (min k 10)] = (if 10 \<le> k then [10] else [])"
  by (auto simp: min_def upt_rec)

text \<open>
  The phone pattern has at most one match at a position: ten digits, with no word
  character before and none behind.
\<close>

lemma ends_phone:
  "ends phoneRegex p s =
     (if \<not> isWordChar p \<and> 10 \<le> length (takeWhile (inClass digitClass) s) \<and>
         \<not> isWordChar (first (drop 10 s))
      then [10] else [])"
proof (cases "10 \<le> length (takeWhile (inClass digitClass) s)")
  case False
  then show ?thesis by (simp add: phoneRegex_def Let_def)
next
  case True
  then have len: "10 \<le> length s" by (meson le_length_takeWhile)
  have "0 < length (takeWhile (inClass digitClass) s)" "9 < length (takeWhile (inClass digitClass) s)"
    using True by linarith+
  then have "inClass digitClass (s ! 0)" "inClass digitClass (s ! 9)"
    by (simp_all add: takeWhile_nth_holds)
  then have d0: "isWordChar (Some (s ! 0))" and d9: "isWordChar (Some (s ! 9))"
    by (simp_all add: class_incl)
  have f: "first s = Some (s ! 0)" using len by (cases s) auto
  have p9: "prevAfter q s 10 = Some (s ! 9)" for q
    using len by (simp add: prevAfter_def first_drop)
  have p0: "prevAfter q s 0 = q" for q by (simp add: prevAfter_def)
  show ?thesis
    using True d0 d9 by (simp add: phoneRegex_def Let_def f p9 p0)
qed

lemma exec_phone:
  "exec phoneRegex p s =
     (if \<not> isWordChar p \<and> 10 \<le> length (takeWhile (inClass digitClass) s) \<and>
         \<not> isWordChar (first (drop 10 s))
      then Some 10 else None)"
  by (simp add: exec_def ends_phone)

lemma ends_phone_nonempty: "0 \<notin> set (ends phoneRegex p s)"
  by (simp add: ends_phone)

lemmas replaceAll_phone_induct =
  replaceAll_induct_nonempty [of phoneRegex, OF ends_phone_nonempty, case_names Nil NoMatch Match]

lemmas replaceAll_phone_simps = replaceAll_simps_nonempty [of phoneRegex, OF ends_phone_nonempty]

lemma ten_digit_run:
  assumes "10 \<le> length (takeWhile (inClass digitClass) s)" and "\<not> isWordChar (first (drop 10 s))"
  shows "takeWhile (inClass wordClass) s = take 10 s" "dropWhile (inClass wordClass) s = drop 10 s"
    "list_all (inClass digitClass) (take 10 s)" "length (take 10 s) = 10"
proof -
  have len: "10 \<le> length s" and dig: "list_all (inClass digitClass) (take 10 s)"
    using assms(1) by (simp_all add: le_length_takeWhile)
  then have w: "list_all (inClass wordClass) (take 10 s)"
    by (simp add: list_all_iff class_incl)
  have nx: "\<And>u. first (drop 10 s) = Some u \<Longrightarrow> \<not> inClass wordClass u"
    using assms(2) by auto
  show "takeWhile (inClass wordClass) s = take 10 s" "dropWhile (inClass wordClass) s = drop 10 s"
    using run_split [OF len w nx] by simp_all
  show "list_all (inClass digitClass) (take 10 s)" by (rule dig)
  show "length (take 10 s) = 10" using len by simp
qed

lemma exec_phone_run:
  assumes "length (takeWhile (inClass wordClass) s) = 10"
    and "list_all (inClass digitClass) (takeWhile (inClass wordClass) s)"
    and "\<not> isWordChar p"
  shows "exec phoneRegex p s = Some 10"
proof -
  let ?run = "takeWhile (inClass wordClass) s"
  have run: "?run = take 10 s" using assms(1) by (metis takeWhile_eq_take)
  have rest: "dropWhile (inClass wordClass) s = drop 10 s" using assms(1) by (metis dropWhile_eq_drop)
  have len: "10 \<le> length s" using assms(1) by (metis length_takeWhile_le)
  have "10 \<le> length (takeWhile (inClass digitClass) s)"
    using len assms(2) run by (simp add: le_length_takeWhile)
  moreover have "\<not> isWordChar (first (drop 10 s))"
  proof (cases "first (drop 10 s)")
    case (Some u)
    then show ?thesis using first_dropWhile [of "inClass wordClass" s u] rest by simp
  qed simp
  ultimately show ?thesis using assms(3) by (simp add: exec_phone)
qed

text \<open>
  The phone substitution computes \<open>redactTenDigitRuns\<close>; inside a run of word characters
  (after a word character) it first leaves the rest of that run.
\<close>

lemma replace_phone:
  "replaceAll phoneRegex PHONE_REDACTED p s =
     (if isWordChar p
      then takeWhile (inClass wordClass) s @ redactTenDigitRuns (dropWhile (inClass wordClass) s)
      else redactTenDigitRuns s)"
proof (induction p s rule: replaceAll_phone_induct)
  case (Nil p)
  then show ?case by (simp add: replaceAll_phone_simps)
next
  case (NoMatch p c cs)
  have r: "replaceAll phoneRegex PHONE_REDACTED p (c # cs) =
      c # replaceAll phoneRegex PHONE_REDACTED (Some c) cs"
    by (rule replaceAll_phone_simps(2) [OF NoMatch.hyps])
  show ?case
  proof (cases "inClass wordClass c")
    case False
    then show ?thesis using NoMatch.IH r by simp
  next
    case True
    show ?thesis
    proof (cases "isWordChar p")
      case True
      then show ?thesis using NoMatch.IH r \<open>inClass wordClass c\<close> by simp
    next
      case False
      have "\<not> (length (takeWhile (inClass wordClass) (c # cs)) = 10 \<and>
          list_all (inClass digitClass) (takeWhile (inClass wordClass) (c # cs)))"
        using exec_phone_run [of "c # cs" p] False NoMatch.hyps by auto
      then have "redactTenDigitRuns (c # cs) =
          takeWhile (inClass wordClass) (c # cs) @
            redactTenDigitRuns (dropWhile (inClass wordClass) (c # cs))"
        using \<open>inClass wordClass c\<close> by (auto simp: Let_def)
      then show ?thesis using NoMatch.IH r \<open>inClass wordClass c\<close> False by simp
    qed
  qed
next
  case (Match p c cs n)
  let ?s = "c # cs"
  from Match.hyps(1) have n: "n = 10" and p: "\<not> isWordChar p"
    and k: "10 \<le> length (takeWhile (inClass digitClass) ?s)"
    and nx: "\<not> isWordChar (first (drop 10 ?s))"
    by (auto simp: exec_phone split: if_splits)
  note run = ten_digit_run [OF k nx]
  have c: "inClass wordClass c"
  proof -
    have "0 < length (takeWhile (inClass digitClass) ?s)" using k by linarith
    then have "inClass digitClass (?s ! 0)" by (rule takeWhile_nth_holds)
    then show ?thesis by (simp add: class_incl)
  qed
  have pv: "isWordChar (prevAfter p ?s 10)"
  proof -
    have "prevAfter p ?s 10 = Some (?s ! 9)"
      using run(4) by (simp add: prevAfter_def first_drop)
    moreover have "9 < length (takeWhile (inClass digitClass) ?s)" using k by linarith
    then have "inClass digitClass (?s ! 9)" by (rule takeWhile_nth_holds)
    ultimately show ?thesis by (simp add: class_incl)
  qed
  have d: "takeWhile (inClass wordClass) (drop 10 ?s) = []"
    "dropWhile (inClass wordClass) (drop 10 ?s) = drop 10 ?s"
    using nx by (cases "drop 10 ?s"; simp)+
  have "replaceAll phoneRegex PHONE_REDACTED p ?s =
      PHONE_REDACTED @ replaceAll phoneRegex PHONE_REDACTED (prevAfter p ?s 10) (drop 10 ?s)"
    using replaceAll_phone_simps(3) [OF Match.hyps(1)] n by simp
  also have "\<dots> = PHONE_REDACTED @ redactTenDigitRuns (drop 10 ?s)"
    using Match.IH pv d unfolding n by simp
  also have "\<dots> = redactTenDigitRuns ?s"
    using c run by (simp add: Let_def del: take_Suc_Cons drop_Suc_Cons)
  finally show ?case using p by simp
qed

lemma redact_nonword:
  "\<not> inClass wordClass c \<Longrightarrow> redactTenDigitRuns (c # cs) = c # redactTenDigitRuns cs"
  by simp

lemma redact_run:
  assumes "tok \<noteq> []" and "list_all (inClass wordClass) tok" and "\<not> isWordChar (first t)"
  shows "redactTenDigitRuns (tok @ t) =
    (if length tok = 10 \<and> list_all (inClass digitClass) tok then PHONE_REDACTED else tok)
      @ redactTenDigitRuns t"
proof -
  obtain c r where tok: "tok = c # r" using assms(1) by (cases tok) auto
  have c: "inClass wordClass c" using assms(2) tok by simp
  have nx: "\<And>u. first (drop (length tok) (tok @ t)) = Some u \<Longrightarrow> \<not> inClass wordClass u"
    using assms(3) by auto
  have "takeWhile (inClass wordClass) (tok @ t) = tok" "dropWhile (inClass wordClass) (tok @ t) = t"
    using run_split [of "length tok" "tok @ t" "inClass wordClass", OF _ _ nx] assms(2) by simp_all
  then have "takeWhile (inClass wordClass) (c # r @ t) = c # r"
    "dropWhile (inClass wordClass) (c # r @ t) = t"
    unfolding tok by simp_all
  then show ?thesis unfolding tok append_Cons redactTenDigitRuns.simps Let_def using c
    by (simp only: if_True)
qed

lemma redact_run_ten:
  assumes "tok \<noteq> []" and "list_all (inClass wordClass) tok" and "\<not> isWordChar (first t)"
    and "length tok = 10 \<and> list_all (inClass digitClass) tok"
  shows "redactTenDigitRuns (tok @ t) = PHONE_REDACTED @ redactTenDigitRuns t"
  unfolding redact_run [OF assms(1-3)] using assms(4) by (rule arg_cong2 [OF if_P refl])

lemma redact_run_other:
  assumes "tok \<noteq> []" and "list_all (inClass wordClass) tok" and "\<not> isWordChar (first t)"
    and "\<not> (length tok = 10 \<and> list_all (inClass digitClass) tok)"
  shows "redactTenDigitRuns (tok @ t) = tok @ redactTenDigitRuns t"
  unfolding redact_run [OF assms(1-3)] using assms(4) by (rule arg_cong2 [OF if_not_P refl])

text \<open>
  Induction along the runs of word characters of the input.
\<close>

lemma redact_induct [case_names Nil NonWord Word]:
  assumes "P []"
    and "\<And>c cs. \<not> inClass wordClass c \<Longrightarrow> P cs \<Longrightarrow> P (c # cs)"
    and "\<And>tok rest. tok \<noteq> [] \<Longrightarrow> list_all (inClass wordClass) tok \<Longrightarrow>
           \<not> isWordChar (first rest) \<Longrightarrow> P rest \<Longrightarrow> P (tok @ rest)"
  shows "P s"
proof (induction s rule: redactTenDigitRuns.induct)
  case 1
  show ?case by (rule assms(1))
next
  case (2 c cs)
  show ?case
  proof (cases "inClass wordClass c")
    case False
    then show ?thesis using 2(2) assms(2) by blast
  next
    case True
    define tok where "tok = takeWhile (inClass wordClass) (c # cs)"
    define rest where "rest = dropWhile (inClass wordClass) (c # cs)"
    have "P rest" using 2(1) [OF True refl refl] unfolding rest_def .
    moreover have "tok \<noteq> []" using True by (simp add: tok_def)
    moreover have "list_all (inClass wordClass) tok"
      unfolding tok_def list_all_iff by (blast dest: set_takeWhileD)
    moreover have "\<not> isWordChar (first rest)"
    proof (cases "first rest")
      case (Some u)
      then show ?thesis using first_dropWhile [of "inClass wordClass" "c # cs" u]
        unfolding rest_def by simp
    qed simp
    moreover have "c # cs = tok @ rest" unfolding tok_def rest_def by simp
    ultimately show ?thesis using assms(3) by metis
  qed
qed

lemma first_redact:
  "\<not> isWordChar (first s) \<Longrightarrow> \<not> isWordChar (first (redactTenDigitRuns s))"
  by (cases s) auto

lemma redact_PHONE:
  "redactTenDigitRuns (PHONE_REDACTED @ R) = PHONE_REDACTED @ redactTenDigitRuns R"
  by (simp add: PHONE_REDACTED_def ascii_def wordClass_def Let_def)

lemma redact_idem: "redactTenDigitRuns (redactTenDigitRuns s) = redactTenDigitRuns s"
proof (induction s rule: redact_induct)
  case Nil
  show ?case by simp
next
  case (NonWord c cs)
  then show ?case by simp
next
  case (Word tok rest)
  have R: "\<not> isWordChar (first (redactTenDigitRuns rest))"
    using Word.hyps(3) by (rule first_redact)
  show ?case
  proof (cases "length tok = 10 \<and> list_all (inClass digitClass) tok")
    case True
    show ?thesis
      by (simp only: redact_run_ten [OF Word.hyps(1-3) True] redact_PHONE Word.IH)
  next
    case False
    show ?thesis
      by (simp only: redact_run_other [OF Word.hyps(1-3) False]
          redact_run_other [OF Word.hyps(1,2) R False] Word.IH)
  qed
qed

lemma PHONE_REDACTED_units:
  "\<exists>t. PHONE_REDACTED = 0x5B # t" "0x40 \<notin> set PHONE_REDACTED" "last PHONE_REDACTED = 0x5D"
  "PHONE_REDACTED \<noteq> []"
  by (simp_all add: PHONE_REDACTED_def ascii_def)

text \<open>
  The phone substitution creates no email match: a word without brackets that
  occurs in the result occurs in the input.
\<close>

lemma prefix_redact:
  "prefix u (redactTenDigitRuns s) \<Longrightarrow> 0x5B \<notin> set u \<Longrightarrow> prefix u s"
proof (induction s arbitrary: u rule: redact_induct)
  case Nil
  then show ?case by simp
next
  case (NonWord c cs)
  then show ?case by (cases u) (auto simp: redact_nonword)
next
  case (Word tok rest)
  show ?case
  proof (cases "length tok = 10 \<and> list_all (inClass digitClass) tok")
    case True
    obtain t where t: "PHONE_REDACTED = 0x5B # t" using PHONE_REDACTED_units(1) by blast
    have "prefix u (0x5B # t @ redactTenDigitRuns rest)"
      using Word.prems(1) unfolding redact_run_ten [OF Word.hyps(1-3) True] t by simp
    then show ?thesis using Word.prems(2) by (cases u) auto
  next
    case False
    have "prefix u (tok @ redactTenDigitRuns rest)"
      using Word.prems(1) unfolding redact_run_other [OF Word.hyps(1-3) False] .
    then consider "prefix u tok" | v where "u = tok @ v" "prefix v (redactTenDigitRuns rest)"
      by (auto simp: prefix_append)
    then show ?thesis
    proof cases
      case 1
      then show ?thesis by (rule prefix_prefix)
    next
      case 2
      then have "prefix v rest" using Word.IH Word.prems(2) by auto
      then show ?thesis unfolding \<open>u = tok @ v\<close> by simp
    qed
  qed
qed

lemma sublist_redact:
  assumes "sublist w (redactTenDigitRuns s)" and "0x40 \<in> set w"
    and "0x5B \<notin> set w" and "0x5D \<notin> set w"
  shows "sublist w s"
  using assms(1)
proof (induction s rule: redact_induct)
  case Nil
  then show ?case by simp
next
  case (NonWord c cs)
  from NonWord.prems have "prefix w (redactTenDigitRuns (c # cs)) \<or> sublist w (redactTenDigitRuns cs)"
    by (simp add: redact_nonword NonWord.hyps sublist_Cons_right)
  then show ?case
  proof
    assume "prefix w (redactTenDigitRuns (c # cs))"
    then have "prefix w (c # cs)" using assms(3) by (rule prefix_redact)
    then show ?thesis by (rule prefix_imp_sublist)
  next
    assume "sublist w (redactTenDigitRuns cs)"
    then show ?thesis using NonWord.IH by (simp add: sublist_Cons_right)
  qed
next
  case (Word tok rest)
  let ?R = "redactTenDigitRuns rest"
  show ?case
  proof (cases "length tok = 10 \<and> list_all (inClass digitClass) tok")
    case True
    have "sublist w (PHONE_REDACTED @ ?R)"
      using Word.prems unfolding redact_run_ten [OF Word.hyps(1-3) True] .
    then consider "sublist w PHONE_REDACTED" | "sublist w ?R"
      | w1 w2 where "w = w1 @ w2" "w1 \<noteq> []" "suffix w1 PHONE_REDACTED" "prefix w2 ?R"
      unfolding sublist_append by (metis append_Nil prefix_imp_sublist)
    then show ?thesis
    proof cases
      case 1
      then have "set w \<subseteq> set PHONE_REDACTED" by (rule set_mono_sublist)
      then show ?thesis using assms(2) PHONE_REDACTED_units(2) by blast
    next
      case 2
      then show ?thesis using Word.IH by (simp add: sublist_append)
    next
      case 3
      then have "last w1 = last PHONE_REDACTED"
        by (metis suffix_def last_appendR)
      then have "0x5D \<in> set w" using 3(1,2) PHONE_REDACTED_units(3)
        by (metis last_in_set set_append UnI1)
      then show ?thesis using assms(4) by blast
    qed
  next
    case False
    have "sublist w (tok @ ?R)"
      using Word.prems unfolding redact_run_other [OF Word.hyps(1-3) False] .
    then consider "sublist w tok" | "sublist w ?R"
      | w1 w2 where "w = w1 @ w2" "suffix w1 tok" "prefix w2 ?R"
      unfolding sublist_append by blast
    then show ?thesis
    proof cases
      case 1
      then show ?thesis by (simp add: sublist_append)
    next
      case 2
      then show ?thesis using Word.IH by (simp add: sublist_append)
    next
      case 3
      have "0x5B \<notin> set w2" using assms(3) 3(1) by simp
      then have "prefix w2 rest" using 3(3) prefix_redact by blast
      then show ?thesis unfolding sublist_append using 3(1,2) by blast
    qed
  qed
qed

lemma matchFree_email_sublist:
  "matchFree emailRegex p z \<longleftrightarrow> (\<forall>w. sublist w z \<longrightarrow> \<not> accepts emailRegex None w None)"
proof (induction z arbitrary: p)
  case Nil
  have "exec emailRegex p [] = None" by (simp add: exec_def emailRegex_def)
  moreover have "\<not> accepts emailRegex None [] None"
    using accepts_email_shape(1) by blast
  ultimately show ?case by simp
next
  case (Cons c cs)
  have "exec emailRegex p (c # cs) = None \<longleftrightarrow>
      (\<forall>w. prefix w (c # cs) \<longrightarrow> \<not> accepts emailRegex None w None)"
  proof
    assume none: "exec emailRegex p (c # cs) = None"
    show "\<forall>w. prefix w (c # cs) \<longrightarrow> \<not> accepts emailRegex None w None"
    proof (intro allI impI notI)
      fix w assume "prefix w (c # cs)" and a: "accepts emailRegex None w None"
      then obtain t where t: "c # cs = w @ t" by (auto simp: prefix_def)
      have "accepts emailRegex p w (first t)" using a by (simp add: accepts_email)
      from accepts_exec [OF this] none t show False by simp
    qed
  next
    assume all: "\<forall>w. prefix w (c # cs) \<longrightarrow> \<not> accepts emailRegex None w None"
    show "exec emailRegex p (c # cs) = None"
    proof (cases "exec emailRegex p (c # cs)")
      case (Some n)
      then have "accepts emailRegex p (take n (c # cs)) (first (drop n (c # cs)))"
        using exec_Some_accepts by blast
      then have "accepts emailRegex None (take n (c # cs)) None" by (simp add: accepts_email)
      then show ?thesis using all take_is_prefix by blast
    qed simp
  qed
  then show ?case using Cons.IH [of "Some c"] by (auto simp: sublist_Cons_right)
qed

lemma matchFree_email_redact:
  assumes "matchFree emailRegex p y"
  shows "matchFree emailRegex q (redactTenDigitRuns y)"
  unfolding matchFree_email_sublist
proof (intro allI impI notI)
  fix w assume s: "sublist w (redactTenDigitRuns y)" and a: "accepts emailRegex None w None"
  have u: "\<forall>u \<in> set w. inClass localClass u \<or> u = 0x40"
    by (rule accepts_email_shape(3) [OF a])
  have "\<not> (inClass localClass (0x5B :: unit16) \<or> (0x5B :: unit16) = 0x40)"
    "\<not> (inClass localClass (0x5D :: unit16) \<or> (0x5D :: unit16) = 0x40)"
    by (simp_all add: localClass_def)
  then have "0x5B \<notin> set w" "0x5D \<notin> set w" using u by blast+
  from sublist_redact [OF s accepts_email_shape(2) [OF a] this]
  show False using assms a unfolding matchFree_email_sublist by blast
qed

lemma replace_phone_None:
  "replaceAll phoneRegex PHONE_REDACTED None s = redactTenDigitRuns s"
  by (simp add: replace_phone)

lemma sanitizeInput_redact:
  "sanitizeInput x = redactTenDigitRuns (replaceAll emailRegex EMAIL_REDACTED None x)"
  by (simp add: sanitizeInput_def replace_phone_None)

lemma sanitizeInput_fixed: "sanitizeInput (sanitizeInput x) = sanitizeInput x"
proof -
  let ?y = "replaceAll emailRegex EMAIL_REDACTED None x"
  have "matchFree emailRegex None (redactTenDigitRuns ?y)"
    by (rule matchFree_email_redact [OF matchFree_replace_email])
  then have "replaceAll emailRegex EMAIL_REDACTED None (redactTenDigitRuns ?y) = redactTenDigitRuns ?y"
    by (rule replaceAll_matchFree)
  then show ?thesis by (simp add: sanitizeInput_redact redact_idem)
qed

text \<open>
  Behind a unit that is no word character the phone rule starts afresh.
\<close>

lemma redact_append:
  "pre = [] \<or> \<not> inClass wordClass (last pre) \<Longrightarrow>
   redactTenDigitRuns (pre @ x) = redactTenDigitRuns pre @ redactTenDigitRuns x"
proof (induction pre rule: redact_induct)
  case Nil
  show ?case by simp
next
  case (NonWord c cs)
  then show ?case by (cases "cs = []") auto
next
  case (Word tok rest)
  have rest: "rest \<noteq> []"
  proof
    assume "rest = []"
    then have "inClass wordClass (last (tok @ rest))"
      using Word.hyps(1,2) by (simp add: list_all_iff)
    then show False using Word.prems Word.hyps(1) by simp
  qed
  then have l: "\<not> inClass wordClass (last rest)" using Word.prems by simp
  have f: "\<not> isWordChar (first (rest @ x))" using Word.hyps(3) rest by (cases rest) auto
  have "redactTenDigitRuns (tok @ rest @ x) =
      (if length tok = 10 \<and> list_all (inClass digitClass) tok then PHONE_REDACTED else tok)
        @ redactTenDigitRuns (rest @ x)"
    by (rule redact_run [OF Word.hyps(1,2) f])
  then show ?case using Word.IH l by (simp add: redact_run [OF Word.hyps(1-3)])
qed

lemma redact_context:
  assumes "pre = [] \<or> \<not> inClass wordClass (last pre)"
    and "tok \<noteq> []" and "list_all (inClass wordClass) tok" and "\<not> isWordChar (first post)"
  shows "redactTenDigitRuns (pre @ tok @ post) =
     redactTenDigitRuns pre @
     (if length tok = 10 \<and> list_all (inClass digitClass) tok then PHONE_REDACTED else tok) @
     redactTenDigitRuns post"
  by (simp only: redact_append [OF assms(1)] redact_run [OF assms(2-4)])

lemma redact_EMAIL: "redactTenDigitRuns EMAIL_REDACTED = EMAIL_REDACTED"
  by (simp add: EMAIL_REDACTED_def ascii_def wordClass_def Let_def)

lemma digits_local:
  "list_all (inClass digitClass) ds \<Longrightarrow> list_all (inClass localClass) ds"
  by (simp add: list_all_iff class_incl)

lemma digits_word:
  "list_all (inClass digitClass) ds \<Longrightarrow> list_all (inClass wordClass) ds"
  by (simp add: list_all_iff class_incl)

lemma matchFree_email_without_at:
  assumes "0x40 \<notin> set txt"
  shows "matchFree emailRegex p txt"
  unfolding matchFree_email_sublist
proof (intro allI impI notI)
  fix w assume s: "sublist w txt" and a: "accepts emailRegex None w None"
  from s have "set w \<subseteq> set txt" by (rule set_mono_sublist)
  then show False using accepts_email_shape(2) [OF a] assms by blast
qed

lemma sanitizeInput_without_at:
  "0x40 \<notin> set txt \<Longrightarrow> sanitizeInput txt = redactTenDigitRuns txt"
  by (simp add: sanitizeInput_redact replaceAll_matchFree [OF matchFree_email_without_at])

subsection \<open>The claims on the Redactor\<close>

text \<open>
  Claim C2.  The Redactor is the phone substitution applied to the result of the
  email substitution.  An address whose local part is ten digits becomes the email
  token and nothing else, although its local part is a match of the phone pattern
  in the raw text (the phone substitution alone would replace it); and the scenario
  of the specification gives exactly the result stated there.
\<close>

theorem email_before_phone:
  "sanitizeInput txt =
     replaceAll phoneRegex PHONE_REDACTED None (replaceAll emailRegex EMAIL_REDACTED None txt) \<and>
   (length ds = 10 \<and> list_all (inClass digitClass) ds \<and>
    lbl \<noteq> [] \<and> list_all (inClass domainClass) lbl \<and>
    2 \<le> length tld \<and> list_all (inClass alphaClass) tld \<longrightarrow>
      sanitizeInput (ds @ 0x40 # lbl @ 0x2E # tld) = EMAIL_REDACTED \<and>
      replaceAll phoneRegex PHONE_REDACTED None (ds @ 0x40 # lbl @ 0x2E # tld) =
        PHONE_REDACTED @ 0x40 # replaceAll phoneRegex PHONE_REDACTED None (lbl @ 0x2E # tld)) \<and>
   sanitizeInput (ascii ''1234567890@x.com'') = ascii ''[EMAIL REDACTED]'' \<and>
   sanitizeInput (ascii ''my email is a@b.com call 9876543210'') =
     ascii ''my email is [EMAIL REDACTED] call [PHONE REDACTED]''"
proof (intro conjI impI)
  show "sanitizeInput txt =
     replaceAll phoneRegex PHONE_REDACTED None (replaceAll emailRegex EMAIL_REDACTED None txt)"
    by (simp add: sanitizeInput_def)
next
  assume a: "length ds = 10 \<and> list_all (inClass digitClass) ds \<and>
    lbl \<noteq> [] \<and> list_all (inClass domainClass) lbl \<and>
    2 \<le> length tld \<and> list_all (inClass alphaClass) tld"
  then have ds: "ds \<noteq> []" by auto
  have "replaceAll emailRegex EMAIL_REDACTED None (ds @ 0x40 # lbl @ 0x2E # tld) = EMAIL_REDACTED"
    using a by (intro replace_email_address ds digits_local) simp_all
  then show "sanitizeInput (ds @ 0x40 # lbl @ 0x2E # tld) = EMAIL_REDACTED"
    by (simp add: sanitizeInput_redact redact_EMAIL)
next
  assume a: "length ds = 10 \<and> list_all (inClass digitClass) ds \<and>
    lbl \<noteq> [] \<and> list_all (inClass domainClass) lbl \<and>
    2 \<le> length tld \<and> list_all (inClass alphaClass) tld"
  then have ds: "ds \<noteq> []" "list_all (inClass wordClass) ds"
    "length ds = 10 \<and> list_all (inClass digitClass) ds"
    by (auto simp: digits_word)
  have at: "\<not> isWordChar (first (0x40 # lbl @ 0x2E # tld))" by (simp add: wordClass_def)
  have "redactTenDigitRuns (ds @ 0x40 # lbl @ 0x2E # tld) =
      PHONE_REDACTED @ redactTenDigitRuns (0x40 # lbl @ 0x2E # tld)"
    by (rule redact_run_ten [OF ds(1,2) at ds(3)])
  also have "redactTenDigitRuns (0x40 # lbl @ 0x2E # tld) = 0x40 # redactTenDigitRuns (lbl @ 0x2E # tld)"
    by (rule redact_nonword) (simp add: wordClass_def)
  finally show "replaceAll phoneRegex PHONE_REDACTED None (ds @ 0x40 # lbl @ 0x2E # tld) =
        PHONE_REDACTED @ 0x40 # replaceAll phoneRegex PHONE_REDACTED None (lbl @ 0x2E # tld)"
    by (simp only: replace_phone_None)
next
  show "sanitizeInput (ascii ''1234567890@x.com'') = ascii ''[EMAIL REDACTED]''"
    by code_simp
next
  show "sanitizeInput (ascii ''my email is a@b.com call 9876543210'') =
     ascii ''my email is [EMAIL REDACTED] call [PHONE REDACTED]''"
    by code_simp
qed

theorem email_before_phone_witness:
  "sanitizeInput (ascii ''5550001111@mail.example.org'') = ascii ''[EMAIL REDACTED]'' \<and>
   replaceAll phoneRegex PHONE_REDACTED None (ascii ''5550001111@mail.example.org'') =
     ascii ''[PHONE REDACTED]@mail.example.org''"
proof -
  have h: "length (ascii ''5550001111'') = 10 \<and> list_all (inClass digitClass) (ascii ''5550001111'') \<and>
    ascii ''mail.example'' \<noteq> [] \<and> list_all (inClass domainClass) (ascii ''mail.example'') \<and>
    2 \<le> length (ascii ''org'') \<and> list_all (inClass alphaClass) (ascii ''org'')"
    by code_simp
  have e: "ascii ''5550001111'' @ 0x40 # ascii ''mail.example'' @ 0x2E # ascii ''org''
      = ascii ''5550001111@mail.example.org''"
    by (simp add: ascii_def)
  have r: "replaceAll phoneRegex PHONE_REDACTED None (ascii ''mail.example'' @ 0x2E # ascii ''org'')
      = ascii ''mail.example.org''"
    by code_simp
  have p: "PHONE_REDACTED @ 0x40 # ascii ''mail.example.org'' = ascii ''[PHONE REDACTED]@mail.example.org''"
    by (simp add: ascii_def PHONE_REDACTED_def)
  have q: "EMAIL_REDACTED = ascii ''[EMAIL REDACTED]''" by (simp add: EMAIL_REDACTED_def)
  show ?thesis
    using email_before_phone [of "[]" "ascii ''5550001111''" "ascii ''mail.example''" "ascii ''org''",
        THEN conjunct2, THEN conjunct1, THEN mp, OF h]
    unfolding e r p q .
qed

text \<open>
  Claim C3.  As a statement about every input of the Redactor the claim does not
  hold, because the email substitution runs first, by design (claim C2): it can take
  a word-bounded run of ten digits before the phone rule sees it, and it can free a
  run of ten digits that stood inside a longer alphanumeric run of the raw input
  (the counterexample below).  What holds is the rule for the text the phone
  substitution of line 45 receives: it replaces exactly the maximal runs of word
  characters that are ten digits (\<open>redactTenDigitRuns\<close>).  Whatever stands around it,
  a run of word characters between two word boundaries becomes the token when it is
  ten digits, and stays as it is otherwise: nine digits, eleven digits, or ten digits
  with a letter or an underscore beside them.  In the Redactor that text is the
  result of the email substitution, which is the raw input when that has no
  \<^verbatim>\<open>@\<close>.
\<close>

theorem phone_rule_refines_spec:
  "replaceAll phoneRegex PHONE_REDACTED None s = redactTenDigitRuns s \<and>
   ((pre = [] \<or> \<not> inClass wordClass (last pre)) \<and> tok \<noteq> [] \<and>
    list_all (inClass wordClass) tok \<and> \<not> isWordChar (first post) \<longrightarrow>
      replaceAll phoneRegex PHONE_REDACTED None (pre @ tok @ post) =
        replaceAll phoneRegex PHONE_REDACTED None pre @
        (if length tok = 10 \<and> list_all (inClass digitClass) tok then PHONE_REDACTED else tok) @
        replaceAll phoneRegex PHONE_REDACTED None post) \<and>
   sanitizeInput txt = redactTenDigitRuns (replaceAll emailRegex EMAIL_REDACTED None txt) \<and>
   (0x40 \<notin> set txt \<longrightarrow> sanitizeInput txt = redactTenDigitRuns txt)"
proof -
  have "(pre = [] \<or> \<not> inClass wordClass (last pre)) \<and> tok \<noteq> [] \<and>
    list_all (inClass wordClass) tok \<and> \<not> isWordChar (first post) \<longrightarrow>
      redactTenDigitRuns (pre @ tok @ post) =
        redactTenDigitRuns pre @
        (if length tok = 10 \<and> list_all (inClass digitClass) tok then PHONE_REDACTED else tok) @
        redactTenDigitRuns post"
    by (blast intro: redact_context)
  then show ?thesis
    using sanitizeInput_redact [of "txt"] sanitizeInput_without_at [of "txt"]
    by (simp only: replace_phone_None) blast
qed

theorem phone_rule_refines_spec_witness:
  "replaceAll phoneRegex PHONE_REDACTED None (ascii ''call 9876543210.'') =
     ascii ''call [PHONE REDACTED].'' \<and>
   replaceAll phoneRegex PHONE_REDACTED None (ascii ''call 987654321.'') = ascii ''call 987654321.'' \<and>
   replaceAll phoneRegex PHONE_REDACTED None (ascii ''call 98765432109.'') =
     ascii ''call 98765432109.'' \<and>
   replaceAll phoneRegex PHONE_REDACTED None (ascii ''call x9876543210.'') =
     ascii ''call x9876543210.''"
proof -
  have pre: "ascii ''call '' = [] \<or> \<not> inClass wordClass (last (ascii ''call ''))"
    and post: "\<not> isWordChar (first (ascii ''.''))"
    and ends: "replaceAll phoneRegex PHONE_REDACTED None (ascii ''call '') = ascii ''call ''"
      "replaceAll phoneRegex PHONE_REDACTED None (ascii ''.'') = ascii ''.''"
    by code_simp+
  have toks:
    "ascii ''9876543210'' \<noteq> [] \<and> list_all (inClass wordClass) (ascii ''9876543210'')"
    "ascii ''987654321'' \<noteq> [] \<and> list_all (inClass wordClass) (ascii ''987654321'')"
    "ascii ''98765432109'' \<noteq> [] \<and> list_all (inClass wordClass) (ascii ''98765432109'')"
    "ascii ''x9876543210'' \<noteq> [] \<and> list_all (inClass wordClass) (ascii ''x9876543210'')"
    by code_simp+
  have which:
    "length (ascii ''9876543210'') = 10 \<and> list_all (inClass digitClass) (ascii ''9876543210'')"
    "\<not> (length (ascii ''987654321'') = 10 \<and> list_all (inClass digitClass) (ascii ''987654321''))"
    "\<not> (length (ascii ''98765432109'') = 10 \<and>
        list_all (inClass digitClass) (ascii ''98765432109''))"
    "\<not> (length (ascii ''x9876543210'') = 10 \<and>
        list_all (inClass digitClass) (ascii ''x9876543210''))"
    by code_simp+
  have 1: "replaceAll phoneRegex PHONE_REDACTED None
      (ascii ''call '' @ ascii ''9876543210'' @ ascii ''.'') =
      ascii ''call '' @ PHONE_REDACTED @ ascii ''.''"
    using phone_rule_refines_spec [of "[]" "ascii ''call ''" "ascii ''9876543210''" "ascii ''.''", THEN conjunct2, THEN conjunct1]
      pre post toks(1) which(1) ends by simp
  have 2: "replaceAll phoneRegex PHONE_REDACTED None
      (ascii ''call '' @ ascii ''987654321'' @ ascii ''.'') =
      ascii ''call '' @ ascii ''987654321'' @ ascii ''.''"
    using phone_rule_refines_spec [of "[]" "ascii ''call ''" "ascii ''987654321''" "ascii ''.''", THEN conjunct2, THEN conjunct1]
      pre post toks(2) which(2) ends by simp
  have 3: "replaceAll phoneRegex PHONE_REDACTED None
      (ascii ''call '' @ ascii ''98765432109'' @ ascii ''.'') =
      ascii ''call '' @ ascii ''98765432109'' @ ascii ''.''"
    using phone_rule_refines_spec [of "[]" "ascii ''call ''" "ascii ''98765432109''" "ascii ''.''", THEN conjunct2, THEN conjunct1]
      pre post toks(3) which(3) ends by simp
  have 4: "replaceAll phoneRegex PHONE_REDACTED None
      (ascii ''call '' @ ascii ''x9876543210'' @ ascii ''.'') =
      ascii ''call '' @ ascii ''x9876543210'' @ ascii ''.''"
    using phone_rule_refines_spec [of "[]" "ascii ''call ''" "ascii ''x9876543210''" "ascii ''.''", THEN conjunct2, THEN conjunct1]
      pre post toks(4) which(4) ends by simp
  show ?thesis using 1 2 3 4 by (simp add: ascii_def PHONE_REDACTED_def)
qed

text \<open>
  The claim read on the raw input of the Redactor fails in both directions.  In
  \<^verbatim>\<open>1234567890@x.com\<close> the ten digits stand between word boundaries, and the rule
  of the claim would give \<^verbatim>\<open>[PHONE REDACTED]@x.com\<close>; the Redactor gives the email
  token and no phone token.  In \<^verbatim>\<open>a@b.com9876543210\<close> the ten digits are part of
  the longer alphanumeric run \<^verbatim>\<open>com9876543210\<close>, which the rule of the claim
  leaves alone; the Redactor replaces them.
\<close>

theorem phone_rule_on_raw_input_counterexample:
  "sanitizeInput (ascii ''1234567890@x.com'') = ascii ''[EMAIL REDACTED]'' \<and>
   redactTenDigitRuns (ascii ''1234567890@x.com'') = ascii ''[PHONE REDACTED]@x.com'' \<and>
   sanitizeInput (ascii ''a@b.com9876543210'') = ascii ''[EMAIL REDACTED][PHONE REDACTED]'' \<and>
   redactTenDigitRuns (ascii ''a@b.com9876543210'') = ascii ''a@b.com9876543210'' \<and>
   sanitizeInput (ascii ''1234567890@x.com'') \<noteq> redactTenDigitRuns (ascii ''1234567890@x.com'') \<and>
   sanitizeInput (ascii ''a@b.com9876543210'') \<noteq> redactTenDigitRuns (ascii ''a@b.com9876543210'')"
proof -
  have 1: "sanitizeInput (ascii ''1234567890@x.com'') = ascii ''[EMAIL REDACTED]''"
    by code_simp
  have 2: "redactTenDigitRuns (ascii ''1234567890@x.com'') = ascii ''[PHONE REDACTED]@x.com''"
    by code_simp
  have 3: "sanitizeInput (ascii ''a@b.com9876543210'') = ascii ''[EMAIL REDACTED][PHONE REDACTED]''"
    by code_simp
  have 4: "redactTenDigitRuns (ascii ''a@b.com9876543210'') = ascii ''a@b.com9876543210''"
    by code_simp
  have 5: "ascii ''[EMAIL REDACTED]'' \<noteq> ascii ''[PHONE REDACTED]@x.com''"
    "ascii ''[EMAIL REDACTED][PHONE REDACTED]'' \<noteq> ascii ''a@b.com9876543210''"
    by (simp_all add: ascii_def)
  show ?thesis unfolding 1 2 3 4 using 5 by simp
qed

text \<open>
  Claim C4.  The Redactor is idempotent: the email substitution leaves no email
  match, the phone substitution creates none and leaves no ten-digit run, so a
  second pass changes nothing.
\<close>

theorem sanitizeInput_idempotent: "sanitizeInput (sanitizeInput x) = sanitizeInput x"
  by (rule sanitizeInput_fixed)

theorem sanitizeInput_idempotent_witness:
  "sanitizeInput (sanitizeInput (ascii ''a@b.com 9876543210'')) =
     ascii ''[EMAIL REDACTED] [PHONE REDACTED]''"
proof -
  have "sanitizeInput (ascii ''a@b.com 9876543210'') = ascii ''[EMAIL REDACTED] [PHONE REDACTED]''"
    by code_simp
  then show ?thesis
    using sanitizeInput_idempotent [of "ascii ''a@b.com 9876543210''"] by simp
qed

subsection \<open>Keyword search in the lower-cased query\<close>

lemma startsWith_prefix: "startsWith s k \<longleftrightarrow> prefix k s"
  by (induction s k rule: startsWith.induct) auto

lemma includesStr_sublist: "includesStr s k \<longleftrightarrow> sublist k s"
  by (induction s) (auto simp: startsWith_prefix sublist_Cons_right)

lemma concat_singletons: "concat (map (\<lambda>u. [g u]) w) = map g w"
  by (induction w) auto

text \<open>
  Lower-casing works unit by unit on Basic Latin and on Devanagari, whatever stands
  around: a stretch of such units is lower-cased in place.
\<close>

lemma toLowerCase_segment:
  assumes "\<And>i. i < length w \<Longrightarrow> lowerAt lo (pre @ w @ post) (length pre + i) = [g (w ! i)]"
  shows "\<exists>a b. toLowerCase lo (pre @ w @ post) = a @ map g w @ b"
proof -
  let ?s = "pre @ w @ post"
  let ?f = "lowerAt lo ?s"
  have split: "[0 ..< length ?s] =
      [0 ..< length pre] @ [length pre ..< length pre + length w]
        @ [length pre + length w ..< length ?s]"
    using upt_add_eq_append [of 0 "length pre" "length w + length post"]
      upt_add_eq_append [of "length pre" "length pre + length w" "length post"]
    by (simp add: add.assoc)
  have "map ?f [length pre ..< length pre + length w] = map (\<lambda>u. [g u]) w"
  proof (rule nth_equalityI)
    show "length (map ?f [length pre ..< length pre + length w]) = length (map (\<lambda>u. [g u]) w)"
      by simp
  next
    fix i assume "i < length (map ?f [length pre ..< length pre + length w])"
    then have i: "i < length w" by simp
    then show "map ?f [length pre ..< length pre + length w] ! i = map (\<lambda>u. [g u]) w ! i"
      using assms [OF i] by simp
  qed
  then have "concat (map ?f [length pre ..< length pre + length w]) = map g w"
    by (simp add: concat_singletons)
  then have "toLowerCase lo ?s =
      concat (map ?f [0 ..< length pre]) @ map g w
        @ concat (map ?f [length pre + length w ..< length ?s])"
    unfolding toLowerCase_def by (subst split) simp
  then show ?thesis by blast
qed

lemma lowerAscii_ascii: "lowerAscii u < 0x80 \<Longrightarrow> u < 0x80"
  unfolding lowerAscii_def by (auto split: if_splits simp: word_less_nat_alt word_le_nat_alt unat_word_ariths)


lemma contains_keyword:
  assumes "map lowerAscii w = kw" and "\<forall>u \<in> set kw. u < 0x80"
  shows "includesStr (toLowerCase lo (pre @ w @ post)) kw"
proof -
  have "lowerAt lo (pre @ w @ post) (length pre + i) = [lowerAscii (w ! i)]" if "i < length w" for i
  proof -
    have "lowerAscii (w ! i) \<in> set kw"
      using that assms(1) by (metis length_map nth_map nth_mem)
    then have "lowerAscii (w ! i) < 0x80"
      using assms(2) by blast
    then have "w ! i < 0x80" by (rule lowerAscii_ascii)
    then show ?thesis using that by (simp add: lowerAt_def nth_append)
  qed
  from toLowerCase_segment [of w lo pre post lowerAscii, OF this]
  obtain a b where "toLowerCase lo (pre @ w @ post) = a @ map lowerAscii w @ b" by blast
  then show ?thesis using assms by (auto simp: includesStr_sublist)
qed

lemma contains_devanagari:
  assumes "\<forall>u \<in> set w. 0x900 \<le> u \<and> u \<le> 0x97F"
  shows "includesStr (toLowerCase lo (pre @ w @ post)) w"
proof -
  have "lowerAt lo (pre @ w @ post) (length pre + i) = [id (w ! i)]" if "i < length w" for i
  proof -
    have *: "0x900 \<le> w ! i \<and> w ! i \<le> 0x97F" using that assms by simp
    then have "\<not> w ! i < 0x80" by (auto simp: word_less_nat_alt word_le_nat_alt)
    then show ?thesis using that * by (simp add: lowerAt_def nth_append)
  qed
  from toLowerCase_segment [of w lo pre post id, OF this]
  obtain a b where "toLowerCase lo (pre @ w @ post) = a @ map id w @ b" by blast
  then show ?thesis by (simp add: includesStr_sublist)
qed

lemma password_matched:
  assumes "map lowerAscii w = ascii ''password'' \<or> w = password_devanagari"
  shows "includesStr (toLowerCase lo (pre @ w @ post)) (ascii ''password'') \<or>
         includesStr (toLowerCase lo (pre @ w @ post)) password_devanagari"
  using assms
proof
  assume "map lowerAscii w = ascii ''password''"
  then show ?thesis by (intro disjI1 contains_keyword) (simp_all add: ascii_def)
next
  assume w: "w = password_devanagari"
  have "includesStr (toLowerCase lo (pre @ w @ post)) w"
    by (rule contains_devanagari) (simp add: w password_devanagari_def)
  then show ?thesis by (simp add: w)
qed

lemma privacy_matched:
  assumes "map lowerAscii w = ascii ''privacy'' \<or> w = privacy_devanagari"
  shows "includesStr (toLowerCase lo (pre @ w @ post)) (ascii ''privacy'') \<or>
         includesStr (toLowerCase lo (pre @ w @ post)) privacy_devanagari"
  using assms
proof
  assume "map lowerAscii w = ascii ''privacy''"
  then show ?thesis by (intro disjI1 contains_keyword) (simp_all add: ascii_def)
next
  assume w: "w = privacy_devanagari"
  have "includesStr (toLowerCase lo (pre @ w @ post)) w"
    by (rule contains_devanagari) (simp add: w privacy_devanagari_def)
  then show ?thesis by (simp add: w)
qed

lemma langResponses_supported:
  "langResponses (ascii ''en-US'') = Bundle en_US"
  "langResponses (ascii ''hi-IN'') = Bundle hi_IN"
  "langResponses (ascii ''mr-IN'') = Bundle mr_IN"
  by (simp_all add: langResponses_def responses_def ascii_def)

lemma fallback_to_en_US:
  "responses lng = None \<Longrightarrow> getMockResponse lo query lng = getMockResponse lo query (ascii ''en-US'')"
proof -
  assume "responses lng = None"
  then have "langResponses lng = langResponses (ascii ''en-US'')"
    by (simp add: langResponses_def responses_def)
  then show ?thesis unfolding getMockResponse_def by (simp cong: if_cong)
qed

lemma inherited_not_supported:
  assumes "key \<in> set objectPrototypeKeys"
  shows "key \<noteq> ascii ''en-US''" "key \<noteq> ascii ''hi-IN''" "key \<noteq> ascii ''mr-IN''"
  using assms by (auto simp: objectPrototypeKeys_def ascii_def)

lemma getMockResponse_cases:
  "getMockResponse lo query lng \<in>
     {get (langResponses lng) password, get (langResponses lng) privacy,
      get (langResponses lng) default'}"
  by (simp add: getMockResponse_def Let_def)

lemma returns_string:
  assumes "lng \<notin> set objectPrototypeKeys"
  shows "\<exists>t. getMockResponse lo query lng = JString t"
proof -
  have "\<exists>b. langResponses lng = Bundle b"
    using assms by (simp add: langResponses_def responses_def)
  then show ?thesis using getMockResponse_cases [of lo query lng] by auto
qed

lemma default_without_keyword:
  assumes "\<not> includesStr (toLowerCase lo query) (ascii ''password'')"
    and "\<not> includesStr (toLowerCase lo query) password_devanagari"
    and "\<not> includesStr (toLowerCase lo query) (ascii ''privacy'')"
    and "\<not> includesStr (toLowerCase lo query) privacy_devanagari"
  shows "getMockResponse lo query lng = get (langResponses lng) default'"
  using assms by (simp add: getMockResponse_def)

subsection \<open>The claims on the ResponseResolver\<close>

text \<open>
  Claim C5.  For each of the three supported language codes, a query that contains
  the word \<^verbatim>\<open>password\<close> in any letter casing, or the Devanagari keyword, anywhere
  (also beside the \<^verbatim>\<open>privacy\<close> keyword) gets exactly the password advice of that
  language: the password test comes first.
\<close>
theorem password_keyword_wins:
  assumes "(lng, b) \<in> {(ascii ''en-US'', en_US), (ascii ''hi-IN'', hi_IN), (ascii ''mr-IN'', mr_IN)}"
    and "map lowerAscii w = ascii ''password'' \<or> w = password_devanagari"
  shows "getMockResponse lo (pre @ w @ post) lng = JString (password b)"
proof -
  have "langResponses lng = Bundle b"
    using assms(1) by (auto simp: langResponses_supported)
  then show ?thesis
    using password_matched [OF assms(2), of lo pre post]
    by (auto simp: getMockResponse_def)
qed

theorem password_keyword_wins_witness:
  "getMockResponse (\<lambda>s i. [s ! i]) (ascii ''Privacy or '' @ ascii ''PassWord'' @ ascii ''?'') (ascii ''hi-IN'')
     = JString hi_IN_password
   \<and> ascii ''Privacy or '' @ ascii ''PassWord'' @ ascii ''?'' = ascii ''Privacy or PassWord?''"
proof -
  have "map lowerAscii (ascii ''PassWord'') = ascii ''password''"
    by (simp add: ascii_def lowerAscii_def)
  then have "getMockResponse (\<lambda>s i. [s ! i]) (ascii ''Privacy or '' @ ascii ''PassWord'' @ ascii ''?'')
       (ascii ''hi-IN'') = JString (password hi_IN)"
    by (intro password_keyword_wins) simp_all
  then show ?thesis by (simp add: hi_IN_def ascii_def)
qed

text \<open>
  Claim C10.  The keyword tests do not depend on the language: for every language
  code a query with a password keyword (English in any casing, or Devanagari) gets
  the \<^verbatim>\<open>password\<close> property of whatever line 264 selected, and a query with a
  privacy keyword that the password test (which comes first) does not match gets its
  \<^verbatim>\<open>privacy\<close> property.  In particular the Devanagari password keyword under
  \<^verbatim>\<open>en-US\<close> gets the English password advice.
\<close>
theorem keywords_independent_of_language:
  "(map lowerAscii w = ascii ''password'' \<or> w = password_devanagari \<longrightarrow>
      getMockResponse lo (pre @ w @ post) lng = get (langResponses lng) password) \<and>
   ((map lowerAscii w = ascii ''privacy'' \<or> w = privacy_devanagari) \<and>
    \<not> includesStr (toLowerCase lo (pre @ w @ post)) (ascii ''password'') \<and>
    \<not> includesStr (toLowerCase lo (pre @ w @ post)) password_devanagari \<longrightarrow>
      getMockResponse lo (pre @ w @ post) lng = get (langResponses lng) privacy) \<and>
   getMockResponse lo password_devanagari (ascii ''en-US'') = JString en_US_password"
proof (intro conjI impI)
  assume "map lowerAscii w = ascii ''password'' \<or> w = password_devanagari"
  from password_matched [OF this, of lo pre post]
  show "getMockResponse lo (pre @ w @ post) lng = get (langResponses lng) password"
    by (auto simp: getMockResponse_def)
next
  assume a: "(map lowerAscii w = ascii ''privacy'' \<or> w = privacy_devanagari) \<and>
    \<not> includesStr (toLowerCase lo (pre @ w @ post)) (ascii ''password'') \<and>
    \<not> includesStr (toLowerCase lo (pre @ w @ post)) password_devanagari"
  then have "map lowerAscii w = ascii ''privacy'' \<or> w = privacy_devanagari" by simp
  from privacy_matched [OF this, of lo pre post] a
  show "getMockResponse lo (pre @ w @ post) lng = get (langResponses lng) privacy"
    by (auto simp: getMockResponse_def)
next
  have "includesStr (toLowerCase lo ([] @ password_devanagari @ [])) password_devanagari"
    by (rule contains_devanagari) (simp add: password_devanagari_def)
  then show "getMockResponse lo password_devanagari (ascii ''en-US'') = JString en_US_password"
    by (simp add: getMockResponse_def langResponses_supported en_US_def)
qed

theorem keywords_independent_of_language_witness:
  "getMockResponse (\<lambda>s i. [s ! i]) (ascii ''my PASSWORD'') (ascii ''fr-FR'') = JString en_US_password \<and>
   getMockResponse (\<lambda>s i. [s ! i]) (privacy_devanagari @ ascii ''?'') (ascii ''mr-IN'') = JString mr_IN_privacy"
proof -
  let ?lo = "\<lambda>(s :: jsstring) i. [s ! i]"
  have 1: "map lowerAscii (ascii ''PASSWORD'') = ascii ''password''"
    by (simp add: ascii_def lowerAscii_def)
  have 2: "(privacy_devanagari = privacy_devanagari) \<and>
      \<not> includesStr (toLowerCase ?lo ([] @ privacy_devanagari @ ascii ''?'')) (ascii ''password'') \<and>
      \<not> includesStr (toLowerCase ?lo ([] @ privacy_devanagari @ ascii ''?'')) password_devanagari"
    by code_simp
  have 4: "langResponses (ascii ''fr-FR'') = Bundle en_US"
    by (simp add: langResponses_def responses_def ascii_def objectPrototypeKeys_def)
  have a: "getMockResponse ?lo (ascii ''my '' @ ascii ''PASSWORD'' @ []) (ascii ''fr-FR'')
      = get (langResponses (ascii ''fr-FR'')) password"
    using keywords_independent_of_language
      [of "ascii ''PASSWORD''" ?lo "ascii ''my ''" "[]" "ascii ''fr-FR''"] 1 by blast
  have b: "getMockResponse ?lo ([] @ privacy_devanagari @ ascii ''?'') (ascii ''mr-IN'')
      = get (langResponses (ascii ''mr-IN'')) privacy"
    using keywords_independent_of_language
      [of privacy_devanagari ?lo "[]" "ascii ''?''" "ascii ''mr-IN''"] 2 by blast
  have c: "ascii ''my '' @ ascii ''PASSWORD'' @ [] = ascii ''my PASSWORD''"
    by (simp add: ascii_def)
  show ?thesis
    using a b unfolding c 4 langResponses_supported by (simp add: en_US_def mr_IN_def)
qed

text \<open>
  Claim C6.  The claim says that every unsupported language code behaves as
  \<^verbatim>\<open>en-US\<close>.  The code does so only for the keys that the property lookup does not
  find (lemma \<open>fallback_to_en_US\<close>).  The key \<^verbatim>\<open>constructor\<close> is found on
  \<^verbatim>\<open>Object.prototype\<close>: for every query the result is \<^verbatim>\<open>undefined\<close>, which
  \<^verbatim>\<open>en-US\<close> never gives.
\<close>

theorem inherited_key_is_not_en_US:
  "getMockResponse lo query (ascii ''constructor'') = JUndefined \<and>
   getMockResponse lo query (ascii ''en-US'') \<noteq> JUndefined \<and>
   getMockResponse lo (ascii ''hello'') (ascii ''en-US'') = JString en_US_default"
proof -
  have "langResponses (ascii ''constructor'') = Inherited"
    by (simp add: langResponses_def responses_def objectPrototypeKeys_def ascii_def)
  then have "getMockResponse lo query (ascii ''constructor'') = JUndefined"
    using getMockResponse_cases [of lo query "ascii ''constructor''"] by simp
  moreover have "getMockResponse lo query (ascii ''en-US'') \<noteq> JUndefined"
    using getMockResponse_cases [of lo query "ascii ''en-US''"]
    by (auto simp: langResponses_supported)
  moreover have "getMockResponse lo (ascii ''hello'') (ascii ''en-US'') = JString en_US_default"
    by code_simp
  ultimately show ?thesis by simp
qed

text \<open>
  Claim C7.  The claim says that the function returns a string for every language
  code.  It raises no exception, and it returns a string, the default response of the
  selected bundle when no keyword matches, for every language code but the names of
  the inherited properties (lemmas \<open>returns_string\<close> and \<open>default_without_keyword\<close>).
  For those (\<^verbatim>\<open>toString\<close>, \<^verbatim>\<open>__proto__\<close>, ...) it returns \<^verbatim>\<open>undefined\<close>, with
  or without a keyword in the query.
\<close>

theorem inherited_key_gives_undefined:
  "(key \<in> set objectPrototypeKeys \<longrightarrow> getMockResponse lo query key = JUndefined) \<and>
   getMockResponse lo (ascii ''hello'') (ascii ''toString'') = JUndefined"
proof -
  have "langResponses key = Inherited" if "key \<in> set objectPrototypeKeys"
    using that inherited_not_supported by (simp add: langResponses_def responses_def)
  then have "key \<in> set objectPrototypeKeys \<longrightarrow> getMockResponse lo query key = JUndefined"
    using getMockResponse_cases [of lo query key] by auto
  moreover have "getMockResponse lo (ascii ''hello'') (ascii ''toString'') = JUndefined"
    by code_simp
  ultimately show ?thesis by simp
qed

theorem inherited_key_gives_undefined_witness:
  "ascii ''__proto__'' \<in> set objectPrototypeKeys \<and>
   getMockResponse (\<lambda>s i. [s ! i]) (ascii ''my password'') (ascii ''__proto__'') = JUndefined"
proof -
  have k: "ascii ''__proto__'' \<in> set objectPrototypeKeys"
    by (simp add: objectPrototypeKeys_def)
  then show ?thesis
    using inherited_key_gives_undefined
      [of "ascii ''__proto__''" "\<lambda>s i. [s ! i]" "ascii ''my password''"]
    by simp
qed

subsection \<open>The claims on the component\<close>

lemma clearHistory_with_speech:
  assumes "speechSynthesis s = Some queue"
  shows "clearHistory s = Inr (s\<lparr>messages := [], speechSynthesis := Some []\<rparr>)"
    and "speak txt lng (s\<lparr>messages := [], speechSynthesis := Some []\<rparr>) =
      s\<lparr>messages := [], speechSynthesis := Some [(txt, lng)]\<rparr>"
  using assms by (simp_all add: clearHistory_def speak_def cancel_def)

lemma speak_fields [simp]:
  "messages (speak txt lng s) = messages s"
  "input (speak txt lng s) = input s"
  "timeouts (speak txt lng s) = timeouts s"
  "selectedLang (speak txt lng s) = selectedLang s"
  by (simp_all add: speak_def split: option.splits)

lemma trim_a: "trim (ascii ''a'') \<noteq> []" "trim (ascii ''b'') \<noteq> []"
  by (simp_all add: trim_def ascii_def whiteSpace_def)






text \<open>
  Claim C8.  The claim says that clearing the history never raises an exception and
  that the cancellation is a silent no-op without speech synthesis.  \<^verbatim>\<open>speak\<close> has
  that guard and is a no-op there; \<^verbatim>\<open>clearHistory\<close> has no guard and raises a
  \<^verbatim>\<open>TypeError\<close>.
\<close>

theorem clearHistory_without_speech:
  "clearHistory (s\<lparr>speechSynthesis := None\<rparr>) =
     Inl (TypeError, s\<lparr>messages := [], speechSynthesis := None\<rparr>) \<and>
   speak txt lng (s\<lparr>speechSynthesis := None\<rparr>) = s\<lparr>speechSynthesis := None\<rparr>"
  by (simp add: clearHistory_def speak_def)

text \<open>
  Claim C9.  The claim says that the ids of the stored messages are pairwise
  distinct in every run.  A reply that arrives at clock reading 2000 gets the id
  2001, and so does the message the user sends one millisecond later, in a run whose
  clock never goes back and whose timeout waits its full delay.
\<close>

theorem colliding_ids:
  "timely lo 0 (init w)
     [SetInput (ascii ''a''), HandleSend 1000, TimeoutFires 0 2000,
      SetInput (ascii ''b''), HandleSend 2001] \<and>
   map id' (messages (run lo (init w)
     [SetInput (ascii ''a''), HandleSend 1000, TimeoutFires 0 2000,
      SetInput (ascii ''b''), HandleSend 2001]))
     = [ascii ''1000'', ascii ''2001'', ascii ''2001''] \<and>
   \<not> distinct (map id' (messages (run lo (init w)
     [SetInput (ascii ''a''), HandleSend 1000, TimeoutFires 0 2000,
      SetInput (ascii ''b''), HandleSend 2001])))"
proof -
  let ?evs = "[SetInput (ascii ''a''), HandleSend 1000, TimeoutFires 0 2000,
      SetInput (ascii ''b''), HandleSend 2001]"
  have ids: "toString 1000 = ascii ''1000''" "toString (2000 + 1) = ascii ''2001''"
    "toString 2001 = ascii ''2001''"
    by (simp_all add: toString.simps ascii_def)
  have t: "timely lo 0 (init w) ?evs"
    by (simp add: step_def handleSend_def onTimeout_def init_def Let_def trim_a ids)
  have m: "map id' (messages (run lo (init w) ?evs)) = [ascii ''1000'', ascii ''2001'', ascii ''2001'']"
    by (simp add: run_def step_def handleSend_def onTimeout_def init_def Let_def trim_a ids)
  have "\<not> distinct [ascii ''1000'', ascii ''2001'', ascii ''2001'']" by simp
  then show ?thesis using t m by simp
qed

end
